theory Spec2Isabelle
  imports Main
begin

section \<open>Bytes, errors and the collaborators of the driver\<close>

text \<open>
  The theory embeds the REPL driver of zap, a command line tool for MicroPython boards
  (\<^verbatim>\<open>pkg/repl/repl.go\<close>): the framing reader \<^verbatim>\<open>ReadUntil\<close>, the soft reboot, the
  execution of a snippet (\<^verbatim>\<open>ExecRaw\<close>, \<^verbatim>\<open>Follow\<close>, \<^verbatim>\<open>Exec\<close>), the directory listing
  and the chunked file transfer (\<^verbatim>\<open>Put\<close>, \<^verbatim>\<open>Get\<close>). The driver talks to a serial
  port, to sinks, to the local filesystem and, through the port, to the interpreter
  on the board; these collaborators come first, then the driver, then what is proved
  of it.

  Go's \<^verbatim>\<open>[]byte\<close> and \<^verbatim>\<open>string\<close> are sequences of 8-bit values; both are
  modelled as \<^typ>\<open>char list\<close>, whose elements are exactly the 256 byte values.
\<close>

type_synonym byte = char

abbreviation EOT :: byte where "EOT \<equiv> CHR 0x04"
abbreviation LF :: byte where "LF \<equiv> CHR 0x0A"
abbreviation CR :: byte where "CR \<equiv> CHR 0x0D"
abbreviation TAB :: byte where "TAB \<equiv> CHR 0x09"
abbreviation DQ :: byte where "DQ \<equiv> CHR 0x22"
abbreviation SQ :: byte where "SQ \<equiv> CHR 0x27"
abbreviation BSL :: byte where "BSL \<equiv> CHR 0x5C"

text \<open>
  Go error values. \<open>New msg\<close> is \<^verbatim>\<open>errors.New(msg)\<close>, whose message is \<open>msg\<close>;
  the other constructors are the error values the collaborators hand to the driver.
\<close>

datatype error =
    Timeout
  | EOF
  | ErrUnexpectedEOF
  | IOError nat
  | CorruptInputError
  | ErrNotExist string
  | New string

fun Error_msg :: "error \<Rightarrow> string" where
  "Error_msg (New msg) = msg"
| "Error_msg Timeout = ''timeout''"
| "Error_msg EOF = ''EOF''"
| "Error_msg ErrUnexpectedEOF = ''unexpected EOF''"
| "Error_msg (IOError n) = ''input/output error''"
| "Error_msg CorruptInputError = ''illegal base64 data''"
| "Error_msg (ErrNotExist name) = ''open '' @ name @ '': no such file or directory''"

subsection \<open>Standard base64 (\<^verbatim>\<open>encoding/base64\<close>, \<^verbatim>\<open>StdEncoding\<close>)\<close>

text \<open>
  Modelled from the spec: the base64 codec is the Go standard library's, which is not
  part of the repository. Section 4.5 fixes it as the standard alphabet with padding;
  the definitions follow the library's quantum-wise algorithm (24 bits in, four
  sextets out, \<open>=\<close> padding on the last quantum; carriage returns and line feeds are
  skipped when decoding).
\<close>

definition encodeStd :: string where
  "encodeStd = ''ABCDEFGHIJKLMNOPQRSTUVWXYZabcdefghijklmnopqrstuvwxyz0123456789+/''"

definition enc6 :: "nat \<Rightarrow> byte" where
  "enc6 i = encodeStd ! i"

definition dec6 :: "byte \<Rightarrow> nat option" where
  "dec6 c = map_of (zip encodeStd [0..<64]) c"

fun EncodeToString :: "string \<Rightarrow> string" where
  "EncodeToString (a # b # c # rest) =
     (let val = of_char a * 65536 + of_char b * 256 + of_char c
      in enc6 (val div 262144 mod 64) # enc6 (val div 4096 mod 64) #
         enc6 (val div 64 mod 64) # enc6 (val mod 64) # EncodeToString rest)"
| "EncodeToString [a, b] =
     (let val = of_char a * 65536 + of_char b * 256
      in [enc6 (val div 262144 mod 64), enc6 (val div 4096 mod 64),
          enc6 (val div 64 mod 64), CHR ''=''])"
| "EncodeToString [a] =
     (let val = of_char a * 65536
      in [enc6 (val div 262144 mod 64), enc6 (val div 4096 mod 64), CHR ''='', CHR ''=''])"
| "EncodeToString [] = []"

fun decodeQuanta :: "string \<Rightarrow> string option" where
  "decodeQuanta (a # b # c # d # rest) =
     (case (dec6 a, dec6 b) of
        (Some x, Some y) \<Rightarrow>
          if rest = [] \<and> c = CHR ''='' \<and> d = CHR ''=''
          then Some [char_of ((x * 64 + y) div 16)]
          else (case dec6 c of
                  Some z \<Rightarrow>
                    if rest = [] \<and> d = CHR ''=''
                    then Some [char_of (((x * 64 + y) * 64 + z) div 1024),
                               char_of (((x * 64 + y) * 64 + z) div 4 mod 256)]
                    else (case dec6 d of
                            Some u \<Rightarrow>
                              (case decodeQuanta rest of
                                 Some r \<Rightarrow>
                                   Some (char_of ((((x * 64 + y) * 64 + z) * 64 + u) div 65536) #
                                         char_of ((((x * 64 + y) * 64 + z) * 64 + u) div 256 mod 256) #
                                         char_of ((((x * 64 + y) * 64 + z) * 64 + u) mod 256) # r)
                               | None \<Rightarrow> None)
                          | None \<Rightarrow> None)
                | None \<Rightarrow> None)
      | _ \<Rightarrow> None)"
| "decodeQuanta [] = Some []"
| "decodeQuanta _ = None"

definition DecodeString :: "string \<Rightarrow> error + string" where
  "DecodeString s =
     (case decodeQuanta (filter (\<lambda>c. c \<noteq> CR \<and> c \<noteq> LF) s) of
        None \<Rightarrow> Inl CorruptInputError
      | Some bs \<Rightarrow> Inr bs)"

subsection \<open>The sink (\<^verbatim>\<open>io.Writer\<close>)\<close>

text \<open>
  A sink collects what is written to it. \<open>w_script\<close> gives the outcome of its next
  \<^verbatim>\<open>Write\<close> calls (\<open>Some e\<close>: the call fails with \<open>e\<close> and stores nothing); past the
  end of the script every call succeeds, which is all a \<^verbatim>\<open>bytes.Buffer\<close> or a
  \<^verbatim>\<open>strings.Builder\<close> ever does.
\<close>

record writer =
  written :: string
  w_script :: "error option list"

definition Buffer :: writer where
  "Buffer = \<lparr>written = [], w_script = []\<rparr>"

definition Writer_Write :: "writer \<Rightarrow> string \<Rightarrow> error option \<times> writer" where
  "Writer_Write w bs =
     (case w_script w of
        [] \<Rightarrow> (None, w\<lparr>written := written w @ bs\<rparr>)
      | None # es \<Rightarrow> (None, w\<lparr>written := written w @ bs, w_script := es\<rparr>)
      | Some e # es \<Rightarrow> (Some e, w\<lparr>w_script := es\<rparr>))"

definition Bytes :: "writer option \<Rightarrow> string" where
  "Bytes w = (case w of None \<Rightarrow> [] | Some s \<Rightarrow> written s)"

subsection \<open>The snippets the driver generates\<close>

text \<open>
  The code strings of \<^verbatim>\<open>Put\<close>, \<^verbatim>\<open>Get\<close> and \<^verbatim>\<open>Ls\<close>, byte for byte. Where the
  source splices a path or an encoded chunk into the text, the text before and the
  text after are named apart.
\<close>

definition put_open_pre :: string where
  "put_open_pre = ''from ubinascii import a2b_base64'' @ [LF] @ ''f=open('' @ [DQ]"

definition put_open_suf :: string where
  "put_open_suf =
     [DQ] @ '','' @ [SQ] @ ''wb'' @ [SQ] @ '')'' @ [LF] @
     ''w=lambda x:f.write(a2b_base64(x))'' @ [LF]"

definition put_open_code :: "string \<Rightarrow> string" where
  "put_open_code dst = put_open_pre @ dst @ put_open_suf"

definition put_chunk_pre :: string where
  "put_chunk_pre = ''w('' @ [DQ]"

definition put_chunk_suf :: string where
  "put_chunk_suf = [DQ] @ '')'' @ [LF]"

definition put_chunk_code :: "string \<Rightarrow> string" where
  "put_chunk_code e = put_chunk_pre @ e @ put_chunk_suf"

definition put_close_code :: string where
  "put_close_code = ''f.close()''"

definition get_open_pre :: string where
  "get_open_pre = ''from ubinascii import b2a_base64'' @ [LF] @ ''f=open('' @ [DQ]"

definition get_open_suf :: string where
  "get_open_suf = [DQ] @ '','' @ [SQ] @ ''rb'' @ [SQ] @ '')'' @ [LF]"

definition get_open_code :: "string \<Rightarrow> string" where
  "get_open_code src = get_open_pre @ src @ get_open_suf"

definition get_chunk_code :: string where
  "get_chunk_code =
     ''d=str(b2a_base64(f.read(256)),'' @ [SQ] @ ''ascii'' @ [SQ] @ '')'' @ [LF] @
     ''print(d.strip(),end='' @ [SQ, SQ] @ '')'' @ [LF]"

definition ls_code :: string where
  "ls_code =
     ''import uos'' @ [LF] @
     ''for f in uos.ilistdir('' @ [SQ] @ ''.'' @ [SQ] @ ''):'' @ [LF] @
     [TAB] @ ''print(f[0], end='' @ [SQ] @ ''/ '' @ [SQ] @ '' if f[1] & 0x4000 else '' @
     [SQ] @ '' '' @ [SQ] @ '')'' @ [LF]"

subsection \<open>The remote interpreter\<close>

text \<open>
  Modelled from the spec: the device behind the link is MicroPython firmware, not code
  of the repository. Section 6 (generated code contract) and section 4.4 fix what the
  driver assumes of it: in raw mode it collects bytes up to the end-of-snippet byte
  \<open>0x04\<close>, runs the snippet, and answers \<open>OK\<close>, the standard output, \<open>0x04\<close>, the
  error output, \<open>0x04\<close> and the prompt \<open>>\<close>. The interpreter below has a filesystem,
  the variable \<open>f\<close> (an open file) and the helper \<open>w\<close>. It knows five programs, each
  by its own Python text, written out here and not taken from the driver: opening a
  file for writing together with the helper, a call of the helper on a base64 string
  literal, \<^verbatim>\<open>f.close()\<close>, opening a file for reading, and printing the base64 text of
  \<^verbatim>\<open>f.read(N)\<close>, where \<open>N\<close> is the decimal number in the program. Anything else is
  reported on the error stream. A path literal is accepted when it is printable ASCII
  without a double quote or a backslash: other paths corrupt the snippet (section 4.4).
\<close>

datatype handle = Reading string nat | Writing string

record device =
  d_files :: "string \<rightharpoonup> string"
  d_f :: "handle option"
  d_w :: bool
  d_line :: string

datatype command =
    PutOpen string | PutChunk string | FClose | GetOpen string | GetChunk nat

definition plain_path :: "string \<Rightarrow> bool" where
  "plain_path s =
     list_all (\<lambda>c. (32::nat) \<le> of_char c \<and> (of_char c :: nat) < 127 \<and> c \<noteq> DQ \<and> c \<noteq> BSL) s"

definition between :: "string \<Rightarrow> string \<Rightarrow> string \<Rightarrow> string option" where
  "between pre suf s =
     (if length pre + length suf \<le> length s \<and> take (length pre) s = pre \<and>
         drop (length s - length suf) s = suf
      then Some (take (length s - length pre - length suf) (drop (length pre) s))
      else None)"

definition py_open_wb_pre :: string where
  "py_open_wb_pre = ''from ubinascii import a2b_base64'' @ [LF] @ ''f=open('' @ [DQ]"

definition py_open_wb_suf :: string where
  "py_open_wb_suf =
     [DQ] @ '','' @ [SQ] @ ''wb'' @ [SQ] @ '')'' @ [LF] @
     ''w=lambda x:f.write(a2b_base64(x))'' @ [LF]"

definition py_call_w_pre :: string where
  "py_call_w_pre = ''w('' @ [DQ]"

definition py_call_w_suf :: string where
  "py_call_w_suf = [DQ] @ '')'' @ [LF]"

definition py_close :: string where
  "py_close = ''f.close()''"

definition py_open_rb_pre :: string where
  "py_open_rb_pre = ''from ubinascii import b2a_base64'' @ [LF] @ ''f=open('' @ [DQ]"

definition py_open_rb_suf :: string where
  "py_open_rb_suf = [DQ] @ '','' @ [SQ] @ ''rb'' @ [SQ] @ '')'' @ [LF]"

definition py_read_pre :: string where
  "py_read_pre = ''d=str(b2a_base64(f.read(''"

definition py_read_suf :: string where
  "py_read_suf =
     '')),'' @ [SQ] @ ''ascii'' @ [SQ] @ '')'' @ [LF] @
     ''print(d.strip(),end='' @ [SQ, SQ] @ '')'' @ [LF]"

text \<open>A decimal number: one digit at least, digits only.\<close>

fun decimal_acc :: "nat \<Rightarrow> string \<Rightarrow> nat option" where
  "decimal_acc n [] = Some n"
| "decimal_acc n (c # cs) =
     (if (48::nat) \<le> of_char c \<and> (of_char c :: nat) \<le> 57
      then decimal_acc (10 * n + (of_char c - 48)) cs
      else None)"

definition decimal :: "string \<Rightarrow> nat option" where
  "decimal s = (if s = [] then None else decimal_acc 0 s)"

definition parse :: "string \<Rightarrow> command option" where
  "parse code =
     (if code = py_close then Some FClose
      else case between py_read_pre py_read_suf code of
        Some digits \<Rightarrow> map_option GetChunk (decimal digits)
      | None \<Rightarrow>
         (case between py_call_w_pre py_call_w_suf code of
            Some e \<Rightarrow> Some (PutChunk e)
          | None \<Rightarrow>
             (case between py_open_wb_pre py_open_wb_suf code of
                Some path \<Rightarrow> if plain_path path then Some (PutOpen path) else None
              | None \<Rightarrow>
                 (case between py_open_rb_pre py_open_rb_suf code of
                    Some path \<Rightarrow> if plain_path path then Some (GetOpen path) else None
                  | None \<Rightarrow> None))))"

definition remote_error :: string where
  "remote_error = ''Traceback (most recent call last):''"

definition run :: "device \<Rightarrow> string \<Rightarrow> device \<times> string \<times> string" where
  "run d code =
     (case parse code of
        None \<Rightarrow> (d, [], remote_error)
      | Some (PutOpen path) \<Rightarrow>
          (d\<lparr>d_files := (d_files d)(path \<mapsto> []), d_f := Some (Writing path), d_w := True\<rparr>, [], [])
      | Some (PutChunk e) \<Rightarrow>
          (case (d_w d, d_f d, DecodeString e) of
             (True, Some (Writing path), Inr bs) \<Rightarrow>
               (case d_files d path of
                  Some old \<Rightarrow> (d\<lparr>d_files := (d_files d)(path \<mapsto> old @ bs)\<rparr>, [], [])
                | None \<Rightarrow> (d, [], remote_error))
           | _ \<Rightarrow> (d, [], remote_error))
      | Some FClose \<Rightarrow>
          (case d_f d of
             Some h \<Rightarrow> (d\<lparr>d_f := None\<rparr>, [], [])
           | None \<Rightarrow> (d, [], remote_error))
      | Some (GetOpen path) \<Rightarrow>
          (case d_files d path of
             Some c \<Rightarrow> (d\<lparr>d_f := Some (Reading path 0)\<rparr>, [], [])
           | None \<Rightarrow> (d, [], remote_error))
      | Some (GetChunk n) \<Rightarrow>
          (case d_f d of
             Some (Reading path pos) \<Rightarrow>
               (case d_files d path of
                  Some c \<Rightarrow>
                    (let b = take n (drop pos c)
                     in (d\<lparr>d_f := Some (Reading path (pos + length b))\<rparr>, EncodeToString b, []))
                | None \<Rightarrow> (d, [], remote_error))
           | _ \<Rightarrow> (d, [], remote_error)))"

fun feed :: "device \<Rightarrow> string \<Rightarrow> device \<times> string" where
  "feed d [] = (d, [])"
| "feed d (b # bs) =
     (if b = EOT
      then (case run (d\<lparr>d_line := []\<rparr>) (d_line d) of
              (d1, out, err) \<Rightarrow>
                (case feed d1 bs of
                   (d2, out2) \<Rightarrow> (d2, ''OK'' @ out @ [EOT] @ err @ [EOT] @ ''>'' @ out2)))
      else feed (d\<lparr>d_line := d_line d @ [b]\<rparr>) bs)"

subsection \<open>The byte transport (\<^verbatim>\<open>serial.Port\<close>)\<close>

text \<open>
  Modelled from the spec: the serial library is not part of the repository. Section
  4.1 gives its contract: a write hands bytes to the link or fails; a read delivers
  data or fails, and a read that sees no data within the timeout fails instead of
  blocking. The port holds the events its next one-byte reads deliver (\<open>rx\<close>: a byte,
  or a failure; reading past the end is the timeout), the outcome of its next writes
  (\<open>wr\<close>, as for a sink), a log of every call made on it (\<open>trace\<close>), and the device at
  the other end (\<open>remote\<close>; \<open>None\<close> for a link whose input is scripted by \<open>rx\<close>
  alone). Bytes a device answers are queued behind the pending input. A read into a
  one-byte buffer delivers one byte or an error, as the contract says; a read that
  returns no byte and no error is not part of it. The input that is pending at any
  moment is finite: a device that sends without end is not modelled.
\<close>

datatype event = Byte byte | Fail error

datatype io_op = Rd event | Wr string "error option"

record port =
  rx :: "event list"
  wr :: "error option list"
  trace :: "io_op list"
  remote :: "device option"

definition Port_Read :: "port \<Rightarrow> (error + byte) \<times> port" where
  "Port_Read p =
     (case rx p of
        [] \<Rightarrow> (Inl Timeout, p\<lparr>trace := trace p @ [Rd (Fail Timeout)]\<rparr>)
      | Byte b # es \<Rightarrow> (Inr b, p\<lparr>rx := es, trace := trace p @ [Rd (Byte b)]\<rparr>)
      | Fail e # es \<Rightarrow> (Inl e, p\<lparr>rx := es, trace := trace p @ [Rd (Fail e)]\<rparr>))"

text \<open>What a successful write leaves: the device, if any, has taken the bytes.\<close>

definition deliver :: "port \<Rightarrow> string \<Rightarrow> port" where
  "deliver p bs =
     (case remote p of
        None \<Rightarrow> p\<lparr>trace := trace p @ [Wr bs None]\<rparr>
      | Some d \<Rightarrow>
         (case feed d bs of
            (d', out) \<Rightarrow>
              p\<lparr>rx := rx p @ map Byte out, trace := trace p @ [Wr bs None], remote := Some d'\<rparr>))"

definition Port_Write :: "port \<Rightarrow> string \<Rightarrow> error option \<times> port" where
  "Port_Write p bs =
     (case wr p of
        [] \<Rightarrow> (None, deliver p bs)
      | None # ws \<Rightarrow> (None, deliver (p\<lparr>wr := ws\<rparr>) bs)
      | Some e # ws \<Rightarrow> (Some e, p\<lparr>wr := ws, trace := trace p @ [Wr bs (Some e)]\<rparr>))"

text \<open>
  \<^verbatim>\<open>io.ReadAtLeast(r.Port, resp, 2)\<close> with a two-byte buffer: it reads until two bytes
  have arrived; an error before the first byte is returned as it is, and an \<open>EOF\<close>
  after one byte becomes \<open>ErrUnexpectedEOF\<close>.
\<close>

definition ReadAtLeast :: "port \<Rightarrow> (error + string) \<times> port" where
  "ReadAtLeast p =
     (case Port_Read p of
        (Inl e, p1) \<Rightarrow> (Inl e, p1)
      | (Inr a, p1) \<Rightarrow>
         (case Port_Read p1 of
            (Inl e, p2) \<Rightarrow> (Inl (if e = EOF then ErrUnexpectedEOF else e), p2)
          | (Inr b, p2) \<Rightarrow> (Inr [a, b], p2)))"

subsection \<open>The local filesystem (\<^verbatim>\<open>os\<close>)\<close>

text \<open>
  Modelled from the spec: local files are the operating system's (section 6, local
  filesystem collaborator, assumed reliable). A filesystem maps names to contents; an
  open file is a name with an offset. Opening for reading needs the file to exist;
  opening with \<^verbatim>\<open>O_WRONLY|O_CREATE\<close> creates a missing file empty and leaves an
  existing one as it is (there is no \<^verbatim>\<open>O_TRUNC\<close>); the empty name cannot be opened.
  A read delivers the bytes from the offset, as many as the buffer holds, and \<open>EOF\<close> at
  the end; a write stores its bytes at the offset, over what was there.
\<close>

type_synonym localfs = "string \<rightharpoonup> string"

record os_file =
  f_name :: string
  f_off :: nat

definition OpenFile_RDONLY :: "localfs \<Rightarrow> string \<Rightarrow> error + os_file" where
  "OpenFile_RDONLY lfs name =
     (case lfs name of
        None \<Rightarrow> Inl (ErrNotExist name)
      | Some c \<Rightarrow> Inr \<lparr>f_name = name, f_off = 0\<rparr>)"

definition OpenFile_WRONLY_CREATE :: "localfs \<Rightarrow> string \<Rightarrow> (error + os_file) \<times> localfs" where
  "OpenFile_WRONLY_CREATE lfs name =
     (if name = [] then (Inl (ErrNotExist name), lfs)
      else case lfs name of
        None \<Rightarrow> (Inr \<lparr>f_name = name, f_off = 0\<rparr>, lfs(name \<mapsto> []))
      | Some c \<Rightarrow> (Inr \<lparr>f_name = name, f_off = 0\<rparr>, lfs))"

definition File_Read :: "localfs \<Rightarrow> os_file \<Rightarrow> nat \<Rightarrow> (error + string) \<times> os_file" where
  "File_Read lfs f n =
     (case lfs (f_name f) of
        None \<Rightarrow> (Inl (IOError 0), f)
      | Some c \<Rightarrow>
         if length c \<le> f_off f then (Inl EOF, f)
         else (Inr (take n (drop (f_off f) c)),
               f\<lparr>f_off := f_off f + length (take n (drop (f_off f) c))\<rparr>))"

definition File_Write :: "localfs \<Rightarrow> os_file \<Rightarrow> string \<Rightarrow> localfs \<times> os_file" where
  "File_Write lfs f x =
     (let old = (case lfs (f_name f) of None \<Rightarrow> [] | Some c \<Rightarrow> c);
          padded = old @ replicate (f_off f - length old) (CHR 0x00)
      in (lfs(f_name f \<mapsto> take (f_off f) padded @ x @ drop (f_off f + length x) old),
          f\<lparr>f_off := f_off f + length x\<rparr>))"

section \<open>The REPL driver (\<^verbatim>\<open>pkg/repl/repl.go\<close>)\<close>

text \<open>\<^verbatim>\<open>bytes.HasSuffix(s, suffix)\<close>.\<close>

definition HasSuffix :: "string \<Rightarrow> string \<Rightarrow> bool" where
  "HasSuffix s suf = (length suf \<le> length s \<and> drop (length s - length suf) s = suf)"

text \<open>
  \<^verbatim>\<open>ReadUntil\<close>. One turn of its loop reads one byte \<open>b\<close>; \<open>ReadUntil_store\<close> is what
  the turn does with it before the suffix test: without a sink the byte is appended to
  \<open>data\<close>; with a sink the byte is written there unless it is \<open>0x04\<close> (a failed write
  ends the call) and \<open>data\<close> becomes the one-byte read buffer itself. The loop ends
  when \<open>data\<close> has the ending as a suffix or a read fails; since each turn consumes one
  event of the finite pending input, and reading past it is the timeout, it ends.
\<close>

definition ReadUntil_store ::
  "writer option \<Rightarrow> string \<Rightarrow> byte \<Rightarrow> (error + string) \<times> writer option"
where
  "ReadUntil_store w data b =
     (case w of
        None \<Rightarrow> (Inr (data @ [b]), None)
      | Some s \<Rightarrow>
         if b \<noteq> EOT
         then (case Writer_Write s [b] of
                 (Some err, s') \<Rightarrow> (Inl err, Some s')
               | (None, s') \<Rightarrow> (Inr [b], Some s'))
         else (Inr [b], Some s))"

function ReadUntil_loop ::
  "string \<Rightarrow> writer option \<Rightarrow> string \<Rightarrow> port \<Rightarrow> (error + string) \<times> writer option \<times> port"
where
  "ReadUntil_loop ending w data p =
     (case Port_Read p of
        (Inl err, p') \<Rightarrow> (Inl err, w, p')
      | (Inr b, p') \<Rightarrow>
         (case ReadUntil_store w data b of
            (Inl err, w') \<Rightarrow> (Inl err, w', p')
          | (Inr data', w') \<Rightarrow>
             if HasSuffix data' ending then (Inr data', w', p')
             else ReadUntil_loop ending w' data' p'))"
  by pat_completeness auto
termination
  by (relation "measure (\<lambda>(ending, w, data, p). length (rx p))")
     (auto simp: Port_Read_def split: list.splits event.splits)

declare ReadUntil_loop.simps [simp del]

definition ReadUntil ::
  "string \<Rightarrow> writer option \<Rightarrow> port \<Rightarrow> (error + string) \<times> writer option \<times> port"
where
  "ReadUntil ending w p = ReadUntil_loop ending w [] p"

definition soft_reboot_banner :: string where
  "soft_reboot_banner = ''soft reboot'' @ [CR, LF]"

definition raw_repl_banner :: string where
  "raw_repl_banner = ''raw REPL; CTRL-B to exit'' @ [CR, LF]"

text \<open>\<^verbatim>\<open>SoftReboot\<close>: the result is the error, if any, and the port as the call left it.\<close>

definition SoftReboot :: "port \<Rightarrow> error option \<times> port" where
  "SoftReboot p =
     (case Port_Write p [EOT] of
        (Some err, p1) \<Rightarrow> (Some err, p1)
      | (None, p1) \<Rightarrow>
         (case ReadUntil soft_reboot_banner None p1 of
            (Inl err, _, p2) \<Rightarrow> (Some err, p2)
          | (Inr _, _, p2) \<Rightarrow>
             (case ReadUntil raw_repl_banner None p2 of
                (Inl err, _, p3) \<Rightarrow> (Some err, p3)
              | (Inr _, _, p3) \<Rightarrow> (None, p3))))"

text \<open>\<^verbatim>\<open>ExecRaw\<close>.\<close>

definition ExecRaw :: "string \<Rightarrow> port \<Rightarrow> error option \<times> port" where
  "ExecRaw code p =
     (case ReadUntil ''>'' None p of
        (Inl err, _, p1) \<Rightarrow> (Some err, p1)
      | (Inr _, _, p1) \<Rightarrow>
         (case Port_Write p1 code of
            (Some err, p2) \<Rightarrow> (Some err, p2)
          | (None, p2) \<Rightarrow>
             (case Port_Write p2 [EOT] of
                (Some err, p3) \<Rightarrow> (Some err, p3)
              | (None, p3) \<Rightarrow>
                 (case ReadAtLeast p3 of
                    (Inl err, p4) \<Rightarrow> (Some err, p4)
                  | (Inr resp, p4) \<Rightarrow>
                     if resp \<noteq> ''OK'' then (Some (New ''could not exec command''), p4)
                     else (None, p4)))))"

text \<open>\<^verbatim>\<open>Follow\<close>: on success the pair is the output data and the error data.\<close>

definition Follow ::
  "writer option \<Rightarrow> port \<Rightarrow> (error + string \<times> string) \<times> writer option \<times> port"
where
  "Follow w p =
     (case ReadUntil [EOT] w p of
        (Inl err, w', p1) \<Rightarrow> (Inl err, w', p1)
      | (Inr data, w', p1) \<Rightarrow>
         (case ReadUntil [EOT] None p1 of
            (Inl err, _, p2) \<Rightarrow> (Inl err, w', p2)
          | (Inr dataErr, _, p2) \<Rightarrow>
             (Inr (if length data > 0 then take (length data - 1) data else data,
                   if length dataErr > 0 then take (length dataErr - 1) dataErr else dataErr),
              w', p2)))"

text \<open>
  \<^verbatim>\<open>Exec\<close>: \<open>Inl err\<close> is the return \<^verbatim>\<open>nil, err\<close>, \<open>Inr data\<close> the return
  \<^verbatim>\<open>data, nil\<close>.
\<close>

definition Exec ::
  "string \<Rightarrow> writer option \<Rightarrow> port \<Rightarrow> (error + string) \<times> writer option \<times> port"
where
  "Exec code w p =
     (case ExecRaw code p of
        (Some err, p1) \<Rightarrow> (Inl err, w, p1)
      | (None, p1) \<Rightarrow>
         (case Follow w p1 of
            (Inl err, w', p2) \<Rightarrow> (Inl err, w', p2)
          | (Inr (data, dataErr), w', p2) \<Rightarrow>
             if length dataErr > 0 then (Inl (New dataErr), w', p2)
             else (Inr data, w', p2)))"

text \<open>\<^verbatim>\<open>strings.TrimRight(s, " ")\<close> and \<^verbatim>\<open>strings.Split(s, " ")\<close>.\<close>

definition TrimRight_space :: "string \<Rightarrow> string" where
  "TrimRight_space s = rev (dropWhile (\<lambda>c. c = CHR '' '') (rev s))"

fun Split_space :: "string \<Rightarrow> string list" where
  "Split_space [] = [[]]"
| "Split_space (c # cs) =
     (if c = CHR '' '' then [] # Split_space cs
      else (case Split_space cs of
              [] \<Rightarrow> [[c]]
            | x # xs \<Rightarrow> (c # x) # xs))"

text \<open>\<^verbatim>\<open>Ls\<close>: the sink is a fresh \<^verbatim>\<open>strings.Builder\<close>.\<close>

definition Ls :: "port \<Rightarrow> (error + string list) \<times> port" where
  "Ls p =
     (case Exec ls_code (Some Buffer) p of
        (Inl err, b, p') \<Rightarrow> (Inl err, p')
      | (Inr _, b, p') \<Rightarrow> (Inr (Split_space (TrimRight_space (Bytes b))), p'))"

text \<open>
  \<^verbatim>\<open>Put\<close>. The loop reads the local file through a 256-byte buffer and sends one
  snippet per chunk; each turn moves the file offset forward, so it ends.
\<close>

function Put_loop :: "localfs \<Rightarrow> os_file \<Rightarrow> port \<Rightarrow> error option \<times> port" where
  "Put_loop lfs f p =
     (case File_Read lfs f 256 of
        (Inl err, f') \<Rightarrow> if err = EOF then (None, p) else (Some err, p)
      | (Inr b, f') \<Rightarrow>
         (case Exec (put_chunk_code (EncodeToString b)) None p of
            (Inl err, _, p') \<Rightarrow> (Some err, p')
          | (Inr _, _, p') \<Rightarrow> Put_loop lfs f' p'))"
  by pat_completeness auto
termination
  by (relation "measure (\<lambda>(lfs, f, p).
        length (case lfs (f_name f) of None \<Rightarrow> [] | Some c \<Rightarrow> c) - f_off f)")
     (auto simp: File_Read_def split: option.splits if_splits)

declare Put_loop.simps [simp del]

definition Put :: "string \<Rightarrow> string \<Rightarrow> localfs \<Rightarrow> port \<Rightarrow> error option \<times> port" where
  "Put dst src lfs p =
     (case OpenFile_RDONLY lfs src of
        Inl err \<Rightarrow> (Some err, p)
      | Inr f \<Rightarrow>
         (case Exec (put_open_code dst) None p of
            (Inl err, _, p1) \<Rightarrow> (Some err, p1)
          | (Inr _, _, p1) \<Rightarrow>
             (case Put_loop lfs f p1 of
                (Some err, p2) \<Rightarrow> (Some err, p2)
              | (None, p2) \<Rightarrow>
                 (case Exec put_close_code None p2 of
                    (Inl err, _, p3) \<Rightarrow> (Some err, p3)
                  | (Inr _, _, p3) \<Rightarrow> (None, p3)))))"

text \<open>
  \<^verbatim>\<open>Get\<close>. The loop runs until a decoded chunk is empty, so it ends only if the
  remote side lets it: a result \<open>None\<close> is a loop that never returns. Each turn has a
  fresh \<^verbatim>\<open>bytes.Buffer\<close> as its sink; the result of \<^verbatim>\<open>f.Write\<close> is not looked at.
\<close>

partial_function (option) Get_loop ::
  "localfs \<Rightarrow> os_file \<Rightarrow> port \<Rightarrow> (error option \<times> localfs \<times> port) option"
where
  "Get_loop lfs f p =
     (case Exec get_chunk_code (Some Buffer) p of
        (Inl err, b, p') \<Rightarrow> Some (Some err, lfs, p')
      | (Inr _, b, p') \<Rightarrow>
         (case DecodeString (Bytes b) of
            Inl err \<Rightarrow> Some (Some err, lfs, p')
          | Inr x \<Rightarrow>
             if length x = 0 then Some (None, lfs, p')
             else (case File_Write lfs f x of
                     (lfs', f') \<Rightarrow> Get_loop lfs' f' p')))"

declare Get_loop.simps [code]

definition Get ::
  "string \<Rightarrow> string \<Rightarrow> localfs \<Rightarrow> port \<Rightarrow> (error option \<times> localfs \<times> port) option"
where
  "Get dst src lfs p =
     (case OpenFile_WRONLY_CREATE lfs dst of
        (Inl err, lfs1) \<Rightarrow> Some (Some err, lfs1, p)
      | (Inr f, lfs1) \<Rightarrow>
         (case Exec (get_open_code src) None p of
            (Inl err, _, p1) \<Rightarrow> Some (Some err, lfs1, p1)
          | (Inr _, _, p1) \<Rightarrow> Get_loop lfs1 f p1))"


section \<open>Notions used to state the properties\<close>

text \<open>The bytes among the events of a stretch of input, in order.\<close>

fun bytes_of :: "event list \<Rightarrow> string" where
  "bytes_of [] = []"
| "bytes_of (Byte b # es) = b # bytes_of es"
| "bytes_of (Fail e # es) = bytes_of es"

text \<open>The log entries of reading the bytes \<open>xs\<close> one by one.\<close>

definition reads :: "string \<Rightarrow> io_op list" where
  "reads xs = map (\<lambda>b. Rd (Byte b)) xs"

text \<open>
  \<open>first_end T data xs\<close>: reading the bytes \<open>xs\<close> after \<open>data\<close> gives, at the last byte
  of \<open>xs\<close> and at no earlier one, a sequence that ends with \<open>T\<close>. \<open>no_end T data xs\<close>:
  at no byte of \<open>xs\<close> does the sequence end with \<open>T\<close>.
\<close>

definition first_end :: "string \<Rightarrow> string \<Rightarrow> string \<Rightarrow> bool" where
  "first_end T data xs =
     (xs \<noteq> [] \<and> HasSuffix (data @ xs) T \<and>
      (\<forall>k \<in> {1..<length xs}. \<not> HasSuffix (data @ take k xs) T))"

definition no_end :: "string \<Rightarrow> string \<Rightarrow> string \<Rightarrow> bool" where
  "no_end T data xs = (\<forall>k \<in> {1..<Suc (length xs)}. \<not> HasSuffix (data @ take k xs) T)"


text \<open>
  The log of one successful \<open>Exec\<close> on a port that holds just the prompt: the prompt is
  read, the code and \<open>0x04\<close> are written, and the acknowledgement and the two streams
  are read.
\<close>

definition exec_log :: "string \<Rightarrow> string \<Rightarrow> string \<Rightarrow> io_op list" where
  "exec_log code out err =
     [Rd (Byte (CHR ''>'')), Wr code None, Wr [EOT] None] @
     reads (''OK'' @ out @ [EOT] @ err @ [EOT])"

text \<open>
  \<open>overwrite old x\<close>: the content of a file that held \<open>old\<close> once \<open>x\<close> has been written
  from its start.
\<close>

definition overwrite :: "string \<Rightarrow> string \<Rightarrow> string" where
  "overwrite old x = x @ drop (length x) old"

text \<open>The pieces of at most \<open>n\<close> elements into which a sequence is cut, in order.\<close>

function chunks :: "nat \<Rightarrow> 'a list \<Rightarrow> 'a list list" where
  "chunks n xs = (if n = 0 \<or> xs = [] then [] else take n xs # chunks n (drop n xs))"
  by pat_completeness auto
termination
  by (relation "measure (\<lambda>(n, xs). length xs)") auto

declare chunks.simps [simp del]

text \<open>
  A session in raw mode, between two snippets: the device \<open>d\<close> has shown its prompt,
  which is all the port holds, and writes succeed; \<open>t\<close> is the log so far.
\<close>

definition at_prompt :: "device \<Rightarrow> io_op list \<Rightarrow> port" where
  "at_prompt d t = \<lparr>rx = [Byte (CHR ''>'')], wr = [], trace = t, remote = Some d\<rparr>"

text \<open>The logs of the chunk snippets of an upload and of a download of \<open>c\<close>.\<close>

definition put_chunks_log :: "string \<Rightarrow> io_op list" where
  "put_chunks_log c =
     concat (map (\<lambda>b. exec_log (put_chunk_code (EncodeToString b)) [] []) (chunks 256 c))"

definition get_chunks_log :: "string \<Rightarrow> io_op list" where
  "get_chunks_log c =
     concat (map (\<lambda>b. exec_log get_chunk_code (EncodeToString b) []) (chunks 256 c @ [[]]))"

section \<open>The base64 codec decodes what it encodes\<close>


lemma enc6_all: "\<forall>i\<in>set [0..<64]. dec6 (enc6 i) = Some i \<and> enc6 i \<noteq> CHR ''='' \<and> enc6 i \<in> set encodeStd"
  by code_simp

lemma dec6_enc6: "i < 64 \<Longrightarrow> dec6 (enc6 i) = Some i"
  using enc6_all by simp

lemma enc6_not_pad: "i < 64 \<Longrightarrow> enc6 i \<noteq> CHR ''=''"
  using enc6_all by simp

lemma enc6_in: "i < 64 \<Longrightarrow> enc6 i \<in> set encodeStd"
  using enc6_all by simp

lemma of_char_lt: "(of_char (c::char) :: nat) < 256"
  by (metis of_char_mod_256 mod_less_divisor zero_less_numeral)

lemma recombine:
  fixes v :: nat
  assumes "v < 16777216"
  shows "((v div 262144 mod 64 * 64 + v div 4096 mod 64) * 64 + v div 64 mod 64) * 64 + v mod 64 = v"
proof -
  have 1: "v mod 4096 = 64 * (v div 64 mod 64) + v mod 64"
    using mod_mult2_eq[of v 64 64] by simp
  have 2: "v mod 262144 = 4096 * (v div 4096 mod 64) + v mod 4096"
    using mod_mult2_eq[of v 4096 64] by simp
  have 3: "v mod 16777216 = 262144 * (v div 262144 mod 64) + v mod 262144"
    using mod_mult2_eq[of v 262144 64] by simp
  have "v mod 16777216 = v" using assms by simp
  with 1 2 3 show ?thesis by simp
qed

lemma div_mod_shift:
  fixes z k q :: nat
  assumes "z < k"
  shows "(z + q * k) div k = q" and "(z + q * k) mod k = z"
  using assms by simp_all

lemma val3:
  fixes x y z :: nat
  assumes "x < 256" "y < 256" "z < 256"
  shows "(x * 65536 + y * 256 + z) div 65536 = x"
    and "(x * 65536 + y * 256 + z) div 256 mod 256 = y"
    and "(x * 65536 + y * 256 + z) mod 256 = z"
    and "x * 65536 + y * 256 + z < 16777216"
proof -
  have e1: "x * 65536 + y * 256 + z = (y * 256 + z) + x * 65536" by simp
  have "y * 256 + z < 65536" using assms by simp
  then show "(x * 65536 + y * 256 + z) div 65536 = x"
    unfolding e1 by (rule div_mod_shift(1))
  have e: "x * 65536 + y * 256 + z = z + (x * 256 + y) * 256" by simp
  have d: "(z + (x * 256 + y) * 256) div 256 = x * 256 + y"
    using assms(3) by (rule div_mod_shift(1))
  have m: "(z + (x * 256 + y) * 256) mod 256 = z"
    using assms(3) by (rule div_mod_shift(2))
  have "(y + x * 256) mod 256 = y" using assms(2) by (rule div_mod_shift(2))
  then show "(x * 65536 + y * 256 + z) div 256 mod 256 = y"
    unfolding e d by (simp only: add.commute)
  show "(x * 65536 + y * 256 + z) mod 256 = z" unfolding e by (rule m)
  show "x * 65536 + y * 256 + z < 16777216" using assms by simp
qed

lemma quantum3:
  fixes a b c :: char
  defines "v \<equiv> of_char a * 65536 + of_char b * 256 + (of_char c :: nat)"
  defines "w \<equiv> ((v div 262144 mod 64 * 64 + v div 4096 mod 64) * 64 + v div 64 mod 64) * 64 + v mod 64"
  shows "char_of (w div 65536) = a" "char_of (w div 256 mod 256) = b" "char_of (w mod 256) = c"
proof -
  have lt: "(of_char a :: nat) < 256" "(of_char b :: nat) < 256" "(of_char c :: nat) < 256"
    by (rule of_char_lt)+
  have "v < 16777216" unfolding v_def by (rule val3(4)[OF lt])
  then have wv: "w = v" unfolding w_def by (rule recombine)
  show "char_of (w div 65536) = a"
    unfolding wv v_def val3(1)[OF lt] by simp
  show "char_of (w div 256 mod 256) = b"
    unfolding wv v_def val3(2)[OF lt] by simp
  show "char_of (w mod 256) = c"
    unfolding wv v_def val3(3)[OF lt] by simp
qed

lemma quantum2:
  fixes a b :: char
  defines "v \<equiv> of_char a * 65536 + of_char b * 256 + (0 :: nat)"
  defines "w \<equiv> (v div 262144 mod 64 * 64 + v div 4096 mod 64) * 64 + v div 64 mod 64"
  shows "char_of (w div 1024) = a" "char_of (w div 4 mod 256) = b"
proof -
  have lt: "(of_char a :: nat) < 256" "(of_char b :: nat) < 256" "(0 :: nat) < 256"
    by (rule of_char_lt)+ simp
  have "v < 16777216" unfolding v_def by (rule val3(4)[OF lt])
  then have r: "w * 64 + v mod 64 = v" unfolding w_def by (rule recombine)
  have "v = 0 + (of_char a * 1024 + of_char b * 4) * 64" by (simp add: v_def)
  then have v0: "v mod 64 = 0" by (metis div_mod_shift(2) zero_less_numeral)
  have "w * 64 = v" using r v0 by simp
  then have w: "w = v div 64" by simp
  have d1: "v div 64 div 1024 = v div 65536" by (simp add: div_mult2_eq[symmetric])
  have d2: "v div 64 div 4 = v div 256" by (simp add: div_mult2_eq[symmetric])
  show "char_of (w div 1024) = a" unfolding w d1 v_def val3(1)[OF lt] by simp
  show "char_of (w div 4 mod 256) = b" unfolding w d2 v_def val3(2)[OF lt] by simp
qed

lemma quantum1:
  fixes a :: char
  defines "v \<equiv> (of_char a :: nat) * 65536"
  defines "w \<equiv> v div 262144 mod 64 * 64 + v div 4096 mod 64"
  shows "char_of (w div 16) = a"
proof -
  define n :: nat where "n = of_char a * 16"
  have lt: "(of_char a :: nat) < 256" by (rule of_char_lt)
  have v: "v = n * 4096" by (simp add: v_def n_def)
  have d: "v div 4096 = n" unfolding v by simp
  have "v div 262144 = v div 4096 div 64" by (simp add: div_mult2_eq[symmetric])
  then have w: "w = n div 64 mod 64 * 64 + n mod 64"
    unfolding w_def d by simp
  have "n < 64 * 64" using lt by (simp add: n_def)
  then have "n div 64 < 64" by (simp only: less_mult_imp_div_less)
  then have "n div 64 mod 64 = n div 64" by simp
  then have "w = n" unfolding w by simp
  then show ?thesis by (simp add: n_def)
qed

lemma decodeQuanta_EncodeToString: "decodeQuanta (EncodeToString s) = Some s"
proof (induction s rule: EncodeToString.induct)
  case (1 a b c rest)
  show ?case
    using 1 quantum3[of a b c]
    by (simp add: Let_def dec6_enc6 enc6_not_pad)
next
  case (2 a b)
  show ?case using quantum2[of a b] by (simp add: Let_def dec6_enc6 enc6_not_pad)
next
  case (3 a)
  show ?case using quantum1[of a] by (simp add: Let_def dec6_enc6 enc6_not_pad)
next
  case 4
  show ?case by simp
qed

lemma set_EncodeToString: "set (EncodeToString s) \<subseteq> insert (CHR ''='') (set encodeStd)"
  by (induction s rule: EncodeToString.induct) (auto simp: Let_def enc6_in)

section \<open>Reading up to a terminator\<close>

lemma reads_simps [simp]:
  "reads [] = []" "reads (x # xs) = Rd (Byte x) # reads xs" "reads (xs @ ys) = reads xs @ reads ys"
  by (simp_all add: reads_def)

lemma bytes_of_map_Byte [simp]: "bytes_of (map Byte xs) = xs"
  by (induction xs) simp_all

lemma bytes_of_append [simp]: "bytes_of (es @ fs) = bytes_of es @ bytes_of fs"
  by (induction es rule: bytes_of.induct) simp_all

lemma Port_Read_Nil:
  "rx p = [] \<Longrightarrow> Port_Read p = (Inl Timeout, p\<lparr>trace := trace p @ [Rd (Fail Timeout)]\<rparr>)"
  by (simp add: Port_Read_def)

lemma Port_Read_Byte:
  "rx p = Byte b # es \<Longrightarrow> Port_Read p = (Inr b, p\<lparr>rx := es, trace := trace p @ [Rd (Byte b)]\<rparr>)"
  by (simp add: Port_Read_def)

lemma Port_Read_Fail:
  "rx p = Fail e # es \<Longrightarrow> Port_Read p = (Inl e, p\<lparr>rx := es, trace := trace p @ [Rd (Fail e)]\<rparr>)"
  by (simp add: Port_Read_def)

lemma ReadUntil_loop_Nil:
  "rx p = [] \<Longrightarrow>
   ReadUntil_loop T w data p = (Inl Timeout, w, p\<lparr>trace := trace p @ [Rd (Fail Timeout)]\<rparr>)"
  by (subst ReadUntil_loop.simps) (simp add: Port_Read_Nil)

lemma ReadUntil_loop_Fail:
  "rx p = Fail e # es \<Longrightarrow>
   ReadUntil_loop T w data p = (Inl e, w, p\<lparr>rx := es, trace := trace p @ [Rd (Fail e)]\<rparr>)"
  by (subst ReadUntil_loop.simps) (simp add: Port_Read_Fail)

lemma ReadUntil_loop_Byte:
  "rx p = Byte b # es \<Longrightarrow>
   ReadUntil_loop T w data p =
     (case ReadUntil_store w data b of
        (Inl err, w') \<Rightarrow> (Inl err, w', p\<lparr>rx := es, trace := trace p @ [Rd (Byte b)]\<rparr>)
      | (Inr data', w') \<Rightarrow>
         if HasSuffix data' T then (Inr data', w', p\<lparr>rx := es, trace := trace p @ [Rd (Byte b)]\<rparr>)
         else ReadUntil_loop T w' data' (p\<lparr>rx := es, trace := trace p @ [Rd (Byte b)]\<rparr>))"
  by (subst ReadUntil_loop.simps) (simp add: Port_Read_Byte)

lemma first_end_Cons:
  assumes "first_end T data (x # xs)" "xs \<noteq> []"
  shows "\<not> HasSuffix (data @ [x]) T" and "first_end T (data @ [x]) xs"
proof -
  from assms have all: "\<forall>k \<in> {1..<Suc (length xs)}. \<not> HasSuffix (data @ take k (x # xs)) T"
    and hs: "HasSuffix (data @ x # xs) T"
    by (simp_all add: first_end_def)
  from assms(2) have "1 \<in> {1..<Suc (length xs)}" by (cases xs) simp_all
  with all have "\<not> HasSuffix (data @ take 1 (x # xs)) T" by blast
  then show "\<not> HasSuffix (data @ [x]) T" by simp
  have "\<not> HasSuffix ((data @ [x]) @ take k xs) T" if "k \<in> {1..<length xs}" for k
  proof -
    from that have "Suc k \<in> {1..<Suc (length xs)}" by simp
    with all have "\<not> HasSuffix (data @ take (Suc k) (x # xs)) T" by blast
    then show ?thesis by simp
  qed
  with assms(2) hs show "first_end T (data @ [x]) xs"
    by (simp add: first_end_def)
qed

lemma first_end_single: "first_end T data [x] \<longleftrightarrow> HasSuffix (data @ [x]) T"
  by (simp add: first_end_def)

lemma ReadUntil_loop_None_hit:
  assumes "rx p = map Byte xs @ rest" "first_end T data xs"
  shows "ReadUntil_loop T None data p =
           (Inr (data @ xs), None, p\<lparr>rx := rest, trace := trace p @ reads xs\<rparr>)"
  using assms
proof (induction xs arbitrary: data p)
  case Nil
  then show ?case by (simp add: first_end_def)
next
  case (Cons x xs)
  from Cons.prems(1) have rx: "rx p = Byte x # (map Byte xs @ rest)" by simp
  show ?case
  proof (cases "xs = []")
    case True
    with Cons.prems(2) have "HasSuffix (data @ [x]) T" by (simp add: first_end_single)
    with True show ?thesis
      by (simp add: ReadUntil_loop_Byte[OF rx] ReadUntil_store_def)
  next
    case False
    note fe = first_end_Cons[OF Cons.prems(2) False]
    let ?p1 = "p\<lparr>rx := map Byte xs @ rest, trace := trace p @ [Rd (Byte x)]\<rparr>"
    have "ReadUntil_loop T None (data @ [x]) ?p1 =
            (Inr ((data @ [x]) @ xs), None, ?p1\<lparr>rx := rest, trace := trace ?p1 @ reads xs\<rparr>)"
      by (rule Cons.IH) (simp_all add: fe(2))
    with fe(1) show ?thesis
      by (simp add: ReadUntil_loop_Byte[OF rx] ReadUntil_store_def)
  qed
qed

lemma ReadUntil_loop_None_Inr:
  assumes "ReadUntil_loop T None data p = (Inr d, w', p')"
  shows "\<exists>xs. rx p = map Byte xs @ rx p' \<and> first_end T data xs \<and> d = data @ xs \<and>
              w' = None \<and> p' = p\<lparr>rx := rx p', trace := trace p @ reads xs\<rparr>"
  using assms
proof (induction "rx p" arbitrary: data p)
  case Nil
  then show ?case by (simp add: ReadUntil_loop_Nil)
next
  case (Cons ev es)
  show ?case
  proof (cases ev)
    case (Fail e)
    with Cons.hyps(2) have "rx p = Fail e # es" by simp
    from ReadUntil_loop_Fail[OF this] Cons.prems show ?thesis by simp
  next
    case (Byte b)
    with Cons.hyps(2) have rx: "rx p = Byte b # es" by simp
    let ?p1 = "p\<lparr>rx := es, trace := trace p @ [Rd (Byte b)]\<rparr>"
    show ?thesis
    proof (cases "HasSuffix (data @ [b]) T")
      case True
      with Cons.prems have "d = data @ [b]" "w' = None" "p' = ?p1"
        by (simp_all add: ReadUntil_loop_Byte[OF rx] ReadUntil_store_def)
      with True rx show ?thesis
        by (intro exI[of _ "[b]"]) (simp add: first_end_single)
    next
      case False
      with Cons.prems have run: "ReadUntil_loop T None (data @ [b]) ?p1 = (Inr d, w', p')"
        by (simp add: ReadUntil_loop_Byte[OF rx] ReadUntil_store_def)
      have "es = rx ?p1" by simp
      from Cons.hyps(1)[OF this run] obtain xs where
        xs: "rx ?p1 = map Byte xs @ rx p'" "first_end T (data @ [b]) xs" "d = (data @ [b]) @ xs"
            "w' = None" "p' = ?p1\<lparr>rx := rx p', trace := trace ?p1 @ reads xs\<rparr>"
        by blast
      have fe: "first_end T data (b # xs)"
        unfolding first_end_def
      proof (intro conjI ballI)
        show "b # xs \<noteq> []" by simp
        from xs(2) show "HasSuffix (data @ b # xs) T" by (simp add: first_end_def)
        fix k assume k: "k \<in> {1..<length (b # xs)}"
        show "\<not> HasSuffix (data @ take k (b # xs)) T"
        proof (cases k)
          case 0
          with k show ?thesis by simp
        next
          case (Suc j)
          show ?thesis
          proof (cases j)
            case 0
            with Suc False show ?thesis by simp
          next
            case (Suc i)
            with \<open>k = Suc j\<close> k have "j \<in> {1..<length xs}" by simp
            with xs(2) have "\<not> HasSuffix ((data @ [b]) @ take j xs) T"
              by (simp add: first_end_def)
            with \<open>k = Suc j\<close> show ?thesis by simp
          qed
        qed
      qed
      from xs rx fe show ?thesis
        by (intro exI[of _ "b # xs"]) simp
    qed
  qed
qed

lemma no_end_Cons:
  assumes "no_end T data (x # xs)"
  shows "\<not> HasSuffix (data @ [x]) T" and "no_end T (data @ [x]) xs"
proof -
  from assms have all: "\<forall>k \<in> {1..<Suc (Suc (length xs))}. \<not> HasSuffix (data @ take k (x # xs)) T"
    by (simp add: no_end_def)
  then have "\<not> HasSuffix (data @ take 1 (x # xs)) T" by force
  then show "\<not> HasSuffix (data @ [x]) T" by simp
  have "\<not> HasSuffix ((data @ [x]) @ take k xs) T" if "k \<in> {1..<Suc (length xs)}" for k
  proof -
    from that have "Suc k \<in> {1..<Suc (Suc (length xs))}" by simp
    with all have "\<not> HasSuffix (data @ take (Suc k) (x # xs)) T" by blast
    then show ?thesis by simp
  qed
  then show "no_end T (data @ [x]) xs" by (simp add: no_end_def)
qed

lemma ReadUntil_loop_None_fail:
  assumes "rx p = map Byte xs @ Fail e # rest" "no_end T data xs"
  shows "ReadUntil_loop T None data p =
           (Inl e, None, p\<lparr>rx := rest, trace := trace p @ reads xs @ [Rd (Fail e)]\<rparr>)"
  using assms
proof (induction xs arbitrary: data p)
  case Nil
  then show ?case by (simp add: ReadUntil_loop_Fail)
next
  case (Cons x xs)
  from Cons.prems(1) have rx: "rx p = Byte x # (map Byte xs @ Fail e # rest)" by simp
  note ne = no_end_Cons[OF Cons.prems(2)]
  let ?p1 = "p\<lparr>rx := map Byte xs @ Fail e # rest, trace := trace p @ [Rd (Byte x)]\<rparr>"
  have "ReadUntil_loop T None (data @ [x]) ?p1 =
          (Inl e, None, ?p1\<lparr>rx := rest, trace := trace ?p1 @ reads xs @ [Rd (Fail e)]\<rparr>)"
    by (rule Cons.IH) (simp_all add: ne(2))
  with ne(1) show ?case
    by (simp add: ReadUntil_loop_Byte[OF rx] ReadUntil_store_def)
qed

lemma ReadUntil_loop_None_timeout:
  assumes "rx p = map Byte xs" "no_end T data xs"
  shows "ReadUntil_loop T None data p =
           (Inl Timeout, None, p\<lparr>rx := [], trace := trace p @ reads xs @ [Rd (Fail Timeout)]\<rparr>)"
  using assms
proof (induction xs arbitrary: data p)
  case Nil
  then show ?case by (simp add: ReadUntil_loop_Nil)
next
  case (Cons x xs)
  from Cons.prems(1) have rx: "rx p = Byte x # map Byte xs" by simp
  note ne = no_end_Cons[OF Cons.prems(2)]
  let ?p1 = "p\<lparr>rx := map Byte xs, trace := trace p @ [Rd (Byte x)]\<rparr>"
  have "ReadUntil_loop T None (data @ [x]) ?p1 =
          (Inl Timeout, None, ?p1\<lparr>rx := [], trace := trace ?p1 @ reads xs @ [Rd (Fail Timeout)]\<rparr>)"
    by (rule Cons.IH) (simp_all add: ne(2))
  with ne(1) show ?case
    by (simp add: ReadUntil_loop_Byte[OF rx] ReadUntil_store_def)
qed


text \<open>With a sink whose writes succeed.\<close>

lemma Writer_Write_ok:
  "w_script s = [] \<Longrightarrow> Writer_Write s bs = (None, s\<lparr>written := written s @ bs\<rparr>)"
  by (simp add: Writer_Write_def)

lemma ReadUntil_store_Some_ok:
  "w_script s = [] \<Longrightarrow>
   ReadUntil_store (Some s) data b =
     (Inr [b], Some (s\<lparr>written := written s @ filter (\<lambda>c. c \<noteq> EOT) [b]\<rparr>))"
  by (simp add: ReadUntil_store_def Writer_Write_ok)

lemma HasSuffix_single: "HasSuffix [b] [t] \<longleftrightarrow> b = t"
  by (auto simp add: HasSuffix_def)

lemma ReadUntil_loop_Some_hit:
  assumes "rx p = map Byte xs @ Byte t # rest" "t \<notin> set xs" "w_script s = []"
  shows "ReadUntil_loop [t] (Some s) data p =
           (Inr [t], Some (s\<lparr>written := written s @ filter (\<lambda>c. c \<noteq> EOT) (xs @ [t])\<rparr>),
            p\<lparr>rx := rest, trace := trace p @ reads (xs @ [t])\<rparr>)"
  using assms
proof (induction xs arbitrary: data p s)
  case Nil
  then have rx: "rx p = Byte t # rest" by simp
  from Nil.prems(3) show ?case
    by (simp add: ReadUntil_loop_Byte[OF rx] ReadUntil_store_Some_ok HasSuffix_single)
next
  case (Cons x xs)
  from Cons.prems(1) have rx: "rx p = Byte x # (map Byte xs @ Byte t # rest)" by simp
  from Cons.prems(2) have ne: "x \<noteq> t" and notin: "t \<notin> set xs" by auto
  let ?p1 = "p\<lparr>rx := map Byte xs @ Byte t # rest, trace := trace p @ [Rd (Byte x)]\<rparr>"
  let ?s1 = "s\<lparr>written := written s @ filter (\<lambda>c. c \<noteq> EOT) [x]\<rparr>"
  have "ReadUntil_loop [t] (Some ?s1) [x] ?p1 =
          (Inr [t], Some (?s1\<lparr>written := written ?s1 @ filter (\<lambda>c. c \<noteq> EOT) (xs @ [t])\<rparr>),
           ?p1\<lparr>rx := rest, trace := trace ?p1 @ reads (xs @ [t])\<rparr>)"
    by (rule Cons.IH) (simp_all add: notin Cons.prems(3))
  with ne show ?case
    by (simp add: ReadUntil_loop_Byte[OF rx] ReadUntil_store_Some_ok[OF Cons.prems(3)]
        HasSuffix_single)
qed

lemma ReadUntil_loop_Some_forwarded:
  assumes "ReadUntil_loop T (Some s) data p = (r, w', p')" "w_script s = []"
  shows "\<exists>evs. rx p = evs @ rx p' \<and>
               w' = Some (s\<lparr>written := written s @ filter (\<lambda>c. c \<noteq> EOT) (bytes_of evs)\<rparr>)"
  using assms
proof (induction "rx p" arbitrary: data p s)
  case Nil
  from Nil.hyps have rx: "rx p = []" by simp
  from Nil.prems(1) have "w' = Some s" "rx p' = []"
    by (auto simp add: ReadUntil_loop_Nil[OF rx] rx)
  with rx show ?case by (intro exI[of _ "[]"]) simp
next
  case (Cons ev es)
  show ?case
  proof (cases ev)
    case (Fail e)
    with Cons.hyps(2) have rx: "rx p = Fail e # es" by simp
    from ReadUntil_loop_Fail[OF rx] Cons.prems(1) have "w' = Some s" "rx p' = es"
      by auto
    with rx show ?thesis by (intro exI[of _ "[Fail e]"]) simp
  next
    case (Byte b)
    with Cons.hyps(2) have rx: "rx p = Byte b # es" by simp
    let ?p1 = "p\<lparr>rx := es, trace := trace p @ [Rd (Byte b)]\<rparr>"
    let ?s1 = "s\<lparr>written := written s @ filter (\<lambda>c. c \<noteq> EOT) [b]\<rparr>"
    show ?thesis
    proof (cases "HasSuffix [b] T")
      case True
      with Cons.prems have "w' = Some ?s1" "rx p' = es"
        by (auto simp add: ReadUntil_loop_Byte[OF rx] ReadUntil_store_Some_ok)
      with rx show ?thesis by (intro exI[of _ "[Byte b]"]) simp
    next
      case False
      with Cons.prems have run: "ReadUntil_loop T (Some ?s1) [b] ?p1 = (r, w', p')"
        by (simp add: ReadUntil_loop_Byte[OF rx] ReadUntil_store_Some_ok)
      have "es = rx ?p1" by simp
      from Cons.hyps(1)[OF this run] Cons.prems(2) obtain evs where
        evs: "rx ?p1 = evs @ rx p'"
             "w' = Some (?s1\<lparr>written := written ?s1 @ filter (\<lambda>c. c \<noteq> EOT) (bytes_of evs)\<rparr>)"
        by auto
      with rx show ?thesis by (intro exI[of _ "Byte b # evs"]) simp
    qed
  qed
qed

text \<open>
  With a sink, \<open>data\<close> is always the last byte alone: the call can only succeed on an
  ending of at most one byte.
\<close>

lemma ReadUntil_store_Some_data:
  "ReadUntil_store (Some s) data b = (Inr d, w') \<Longrightarrow> d = [b] \<and> (\<exists>s'. w' = Some s')"
  by (auto simp add: ReadUntil_store_def split: if_splits prod.splits option.splits)

lemma ReadUntil_loop_Some_Inr:
  assumes "ReadUntil_loop T (Some s) data p = (Inr d, w', p')"
  shows "length d = 1 \<and> HasSuffix d T"
  using assms
proof (induction "rx p" arbitrary: data p s)
  case Nil
  then show ?case by (simp add: ReadUntil_loop_Nil[of p])
next
  case (Cons ev es)
  show ?case
  proof (cases ev)
    case (Fail e)
    with Cons.hyps(2) have rx: "rx p = Fail e # es" by simp
    from ReadUntil_loop_Fail[OF rx] Cons.prems(1) show ?thesis by simp
  next
    case (Byte b)
    with Cons.hyps(2) have rx: "rx p = Byte b # es" by simp
    let ?p1 = "p\<lparr>rx := es, trace := trace p @ [Rd (Byte b)]\<rparr>"
    obtain r1 w1 where st: "ReadUntil_store (Some s) data b = (r1, w1)" by (cases "ReadUntil_store (Some s) data b")
    show ?thesis
    proof (cases r1)
      case (Inl err)
      with st Cons.prems show ?thesis by (simp add: ReadUntil_loop_Byte[OF rx])
    next
      case (Inr d1)
      with st ReadUntil_store_Some_data obtain s1 where d1: "d1 = [b]" "w1 = Some s1" by blast
      show ?thesis
      proof (cases "HasSuffix [b] T")
        case True
        with st Inr d1 Cons.prems show ?thesis by (auto simp add: ReadUntil_loop_Byte[OF rx])
      next
        case False
        with st Inr d1 Cons.prems have run: "ReadUntil_loop T (Some s1) [b] ?p1 = (Inr d, w', p')"
          by (simp add: ReadUntil_loop_Byte[OF rx])
        have "es = rx ?p1" by simp
        from Cons.hyps(1)[OF this run] show ?thesis .
      qed
    qed
  qed
qed

lemma ReadUntil_loop_Some_long_ending:
  assumes "2 \<le> length T"
  shows "fst (ReadUntil_loop T (Some s) data p) \<noteq> Inr d"
proof
  assume "fst (ReadUntil_loop T (Some s) data p) = Inr d"
  then obtain w' p' where "ReadUntil_loop T (Some s) data p = (Inr d, w', p')"
    by (cases "ReadUntil_loop T (Some s) data p") auto
  from ReadUntil_loop_Some_Inr[OF this] have "length d = 1" "HasSuffix d T" by simp_all
  with assms show False by (simp add: HasSuffix_def)
qed


lemma ReadUntil_loop_Some_single_Inr:
  assumes "ReadUntil_loop [t] (Some s) data p = (Inr d, w', p')" "w_script s = []"
  shows "\<exists>xs. rx p = map Byte xs @ Byte t # rx p' \<and> t \<notin> set xs"
  using assms
proof (induction "rx p" arbitrary: data p s)
  case Nil
  then show ?case by (simp add: ReadUntil_loop_Nil[of p])
next
  case (Cons ev es)
  show ?case
  proof (cases ev)
    case (Fail e)
    with Cons.hyps(2) have rx: "rx p = Fail e # es" by simp
    from ReadUntil_loop_Fail[OF rx] Cons.prems(1) show ?thesis by simp
  next
    case (Byte b)
    with Cons.hyps(2) have rx: "rx p = Byte b # es" by simp
    let ?p1 = "p\<lparr>rx := es, trace := trace p @ [Rd (Byte b)]\<rparr>"
    let ?s1 = "s\<lparr>written := written s @ filter (\<lambda>c. c \<noteq> EOT) [b]\<rparr>"
    show ?thesis
    proof (cases "b = t")
      case True
      with Cons.prems have "rx p' = es"
        by (auto simp add: ReadUntil_loop_Byte[OF rx] ReadUntil_store_Some_ok HasSuffix_single)
      with rx True show ?thesis by (intro exI[of _ "[]"]) simp
    next
      case False
      with Cons.prems have run: "ReadUntil_loop [t] (Some ?s1) [b] ?p1 = (Inr d, w', p')"
        by (simp add: ReadUntil_loop_Byte[OF rx] ReadUntil_store_Some_ok HasSuffix_single)
      have "es = rx ?p1" by simp
      from Cons.hyps(1)[OF this run] Cons.prems(2) obtain xs where
        "rx ?p1 = map Byte xs @ Byte t # rx p'" "t \<notin> set xs"
        by auto
      with rx False show ?thesis by (intro exI[of _ "b # xs"]) auto
    qed
  qed
qed

lemma first_end_empty_data:
  assumes "T \<noteq> []"
  shows "first_end T [] d \<longleftrightarrow> HasSuffix d T \<and> (\<forall>k<length d. \<not> HasSuffix (take k d) T)"
proof
  assume fe: "first_end T [] d"
  have "\<not> HasSuffix (take k d) T" if "k < length d" for k
  proof (cases k)
    case 0
    with assms show ?thesis by (simp add: HasSuffix_def)
  next
    case (Suc j)
    with that have "k \<in> {1..<length d}" by simp
    with fe show ?thesis by (simp add: first_end_def)
  qed
  with fe show "HasSuffix d T \<and> (\<forall>k<length d. \<not> HasSuffix (take k d) T)"
    by (simp add: first_end_def)
next
  assume r: "HasSuffix d T \<and> (\<forall>k<length d. \<not> HasSuffix (take k d) T)"
  with assms have "d \<noteq> []" by (auto simp add: HasSuffix_def)
  with r show "first_end T [] d" by (simp add: first_end_def)
qed


section \<open>Claims about \<^verbatim>\<open>ReadUntil\<close>\<close>

text \<open>
  Where \<open>ReadUntil\<close> stops. Without a sink and for a non-empty ending \<open>T\<close>, the call
  succeeds exactly when the input starts with bytes \<open>d\<close> that end with \<open>T\<close> while no
  shorter run of them does: it returns \<open>d\<close>, having read \<open>d\<close> and nothing more. With a
  sink whose writes succeed the same holds for an ending of one byte \<open>t\<close>: the call
  stops at the first \<open>t\<close>, and returns that byte alone. With a sink the loop keeps only
  the last byte read, so for an ending of two or more bytes the suffix test never
  holds and the call does not return successfully, whatever the input.
\<close>

lemma ReadUntil_first_end:
  "(T \<noteq> [] \<longrightarrow>
      (ReadUntil T None p = (Inr d, w', p') \<longleftrightarrow>
         rx p = map Byte d @ rx p' \<and> HasSuffix d T \<and>
         (\<forall>k<length d. \<not> HasSuffix (take k d) T) \<and>
         w' = None \<and> p' = p\<lparr>rx := rx p', trace := trace p @ reads d\<rparr>)) \<and>
   (w_script s = [] \<longrightarrow>
      (ReadUntil [t] (Some s) p = (Inr d, w', p') \<longleftrightarrow>
         (\<exists>xs. rx p = map Byte (xs @ [t]) @ rx p' \<and> t \<notin> set xs \<and> d = [t] \<and>
               w' = Some (s\<lparr>written := written s @ filter (\<lambda>c. c \<noteq> EOT) (xs @ [t])\<rparr>) \<and>
               p' = p\<lparr>rx := rx p', trace := trace p @ reads (xs @ [t])\<rparr>))) \<and>
   (2 \<le> length T \<longrightarrow> fst (ReadUntil T (Some s) p) \<noteq> Inr d)"
proof (intro conjI impI)
  assume T: "T \<noteq> []"
  show "ReadUntil T None p = (Inr d, w', p') \<longleftrightarrow>
          rx p = map Byte d @ rx p' \<and> HasSuffix d T \<and>
          (\<forall>k<length d. \<not> HasSuffix (take k d) T) \<and>
          w' = None \<and> p' = p\<lparr>rx := rx p', trace := trace p @ reads d\<rparr>"
    (is "?L \<longleftrightarrow> ?R")
  proof
    assume ?L
    then have "ReadUntil_loop T None [] p = (Inr d, w', p')" by (simp add: ReadUntil_def)
    from ReadUntil_loop_None_Inr[OF this] first_end_empty_data[OF T] show ?R by auto
  next
    assume r: ?R
    with first_end_empty_data[OF T] have fe: "first_end T [] d" by simp
    from r have "rx p = map Byte d @ rx p'" by simp
    from ReadUntil_loop_None_hit[OF this fe] r show ?L
      by (simp add: ReadUntil_def)
  qed
next
  assume s: "w_script s = []"
  show "ReadUntil [t] (Some s) p = (Inr d, w', p') \<longleftrightarrow>
          (\<exists>xs. rx p = map Byte (xs @ [t]) @ rx p' \<and> t \<notin> set xs \<and> d = [t] \<and>
                w' = Some (s\<lparr>written := written s @ filter (\<lambda>c. c \<noteq> EOT) (xs @ [t])\<rparr>) \<and>
                p' = p\<lparr>rx := rx p', trace := trace p @ reads (xs @ [t])\<rparr>)"
    (is "?L \<longleftrightarrow> ?R")
  proof
    assume l: ?L
    then have run: "ReadUntil_loop [t] (Some s) [] p = (Inr d, w', p')" by (simp add: ReadUntil_def)
    from ReadUntil_loop_Some_single_Inr[OF run s] obtain xs where
      xs: "rx p = map Byte xs @ Byte t # rx p'" "t \<notin> set xs" by blast
    from ReadUntil_loop_Some_hit[OF xs s, of "[]"] run xs show ?R
      by (intro exI[of _ xs]) auto
  next
    assume ?R
    then obtain xs where
      xs: "rx p = map Byte xs @ Byte t # rx p'" "t \<notin> set xs" and
      r: "d = [t]"
         "w' = Some (s\<lparr>written := written s @ filter (\<lambda>c. c \<noteq> EOT) (xs @ [t])\<rparr>)"
         "p' = p\<lparr>rx := rx p', trace := trace p @ reads (xs @ [t])\<rparr>"
      by auto
    from ReadUntil_loop_Some_hit[OF xs s, of "[]"] r show ?L
      by (simp add: ReadUntil_def)
  qed
next
  assume "2 \<le> length T"
  then show "fst (ReadUntil T (Some s) p) \<noteq> Inr d"
    unfolding ReadUntil_def by (rule ReadUntil_loop_Some_long_ending)
qed

text \<open>
  For instance: the ending \<open>ab\<close> on the input \<open>xabab\<close> without a sink, the ending
  \<open>0x04\<close> on the input \<open>hi\<close>, \<open>0x04\<close>, \<open>z\<close> with a buffer as sink, and the ending \<open>ab\<close>
  with a sink.
\<close>

lemma ReadUntil_first_end_example:
  "''ab'' \<noteq> [] \<and>
   ReadUntil ''ab'' None \<lparr>rx = map Byte ''xabab'', wr = [], trace = [], remote = None\<rparr> =
     (Inr ''xab'', None,
      \<lparr>rx = map Byte ''ab'', wr = [], trace = reads ''xab'', remote = None\<rparr>) \<and>
   w_script Buffer = [] \<and>
   ReadUntil [EOT] (Some Buffer)
       \<lparr>rx = map Byte (''hi'' @ [EOT] @ ''z''), wr = [], trace = [], remote = None\<rparr> =
     (Inr [EOT], Some \<lparr>written = ''hi'', w_script = []\<rparr>,
      \<lparr>rx = map Byte ''z'', wr = [], trace = reads (''hi'' @ [EOT]), remote = None\<rparr>) \<and>
   2 \<le> length ''ab'' \<and>
   fst (ReadUntil ''ab'' (Some Buffer)
          \<lparr>rx = map Byte ''xabab'', wr = [], trace = [], remote = None\<rparr>) \<noteq> Inr ''b''"
proof -
  let ?p = "\<lparr>rx = map Byte ''xabab'', wr = [], trace = [], remote = None\<rparr>"
  let ?p' = "\<lparr>rx = map Byte ''ab'', wr = [], trace = reads ''xab'', remote = None\<rparr>"
  let ?q = "\<lparr>rx = map Byte (''hi'' @ [EOT] @ ''z''), wr = [], trace = [], remote = None\<rparr>"
  let ?q' = "\<lparr>rx = map Byte ''z'', wr = [], trace = reads (''hi'' @ [EOT]), remote = None\<rparr>"
  let ?s' = "\<lparr>written = ''hi'', w_script = []\<rparr>"
  have 1: "rx ?p = map Byte ''xab'' @ rx ?p' \<and> HasSuffix ''xab'' ''ab'' \<and>
           (\<forall>k<length ''xab''. \<not> HasSuffix (take k ''xab'') ''ab'') \<and>
           (None :: writer option) = None \<and> ?p' = ?p\<lparr>rx := rx ?p', trace := trace ?p @ reads ''xab''\<rparr>"
    by (auto simp add: HasSuffix_def less_Suc_eq)
  have 2: "\<exists>xs. rx ?q = map Byte (xs @ [EOT]) @ rx ?q' \<and> EOT \<notin> set xs \<and> [EOT] = [EOT] \<and>
             Some ?s' = Some (Buffer\<lparr>written := written Buffer @ filter (\<lambda>c. c \<noteq> EOT) (xs @ [EOT])\<rparr>) \<and>
             ?q' = ?q\<lparr>rx := rx ?q', trace := trace ?q @ reads (xs @ [EOT])\<rparr>"
    by (intro exI[of _ "''hi''"]) (simp add: Buffer_def)
  have b: "w_script Buffer = []" by (simp add: Buffer_def)
  note t1 = ReadUntil_first_end[of "''ab''" ?p "''xab''" None ?p' Buffer EOT, THEN conjunct1]
  note t2 = ReadUntil_first_end[of "''ab''" ?q "[EOT]" "Some ?s'" ?q' Buffer EOT,
      THEN conjunct2, THEN conjunct1]
  note t3 = ReadUntil_first_end[of "''ab''" ?p "''b''" None ?p' Buffer EOT,
      THEN conjunct2, THEN conjunct2]
  from t1 1 have "ReadUntil ''ab'' None ?p = (Inr ''xab'', None, ?p')" by blast
  moreover from t2 b 2 have "ReadUntil [EOT] (Some Buffer) ?q = (Inr [EOT], Some ?s', ?q')"
    by blast
  moreover from t3 have "fst (ReadUntil ''ab'' (Some Buffer) ?p) \<noteq> Inr ''b''" by simp
  ultimately show ?thesis using b by simp
qed

text \<open>
  C3, on the input where the code fails: the ending \<open>ab\<close> and the input \<open>abz\<close>, whose
  first two bytes end with the ending. Without a sink the call returns \<open>ab\<close> after
  the second read and leaves \<open>z\<close> unread. With a buffer as sink the call does not
  return there: it reads \<open>z\<close> as well, hands all three bytes to the sink, reads once
  more and ends with the timeout of the exhausted link.
\<close>

theorem ReadUntil_sink_misses_ending:
  "HasSuffix ''ab'' ''ab'' \<and>
   ReadUntil ''ab'' None \<lparr>rx = map Byte ''abz'', wr = [], trace = [], remote = None\<rparr> =
     (Inr ''ab'', None,
      \<lparr>rx = map Byte ''z'', wr = [], trace = reads ''ab'', remote = None\<rparr>) \<and>
   ReadUntil ''ab'' (Some Buffer)
       \<lparr>rx = map Byte ''abz'', wr = [], trace = [], remote = None\<rparr> =
     (Inl Timeout, Some \<lparr>written = ''abz'', w_script = []\<rparr>,
      \<lparr>rx = [], wr = [], trace = reads ''abz'' @ [Rd (Fail Timeout)], remote = None\<rparr>)"
  by (simp add: ReadUntil_def ReadUntil_loop_Byte ReadUntil_loop_Nil ReadUntil_store_def
      Writer_Write_def Buffer_def HasSuffix_def)

text \<open>
  C5. With a sink whose writes succeed, whatever way the call ends, the sink has
  received every byte the call read, in order, except the bytes \<open>0x04\<close>: nothing is
  held back. And \<open>0x04\<close> is still matched: with the ending \<open>0x04\<close> the call stops at
  the first \<open>0x04\<close> of the input, which the sink does not receive.
\<close>

theorem ReadUntil_sink_forwarding:
  "w_script s = [] \<longrightarrow>
     (ReadUntil T (Some s) p = (r, w', p') \<longrightarrow>
        (\<exists>evs. rx p = evs @ rx p' \<and>
               w' = Some (s\<lparr>written := written s @ filter (\<lambda>c. c \<noteq> EOT) (bytes_of evs)\<rparr>))) \<and>
     (rx p = map Byte xs @ Byte EOT # rest \<and> EOT \<notin> set xs \<longrightarrow>
        ReadUntil [EOT] (Some s) p =
          (Inr [EOT], Some (s\<lparr>written := written s @ xs\<rparr>),
           p\<lparr>rx := rest, trace := trace p @ reads (xs @ [EOT])\<rparr>))"
proof (intro conjI impI)
  assume s: "w_script s = []" and run: "ReadUntil T (Some s) p = (r, w', p')"
  from run have "ReadUntil_loop T (Some s) [] p = (r, w', p')" by (simp add: ReadUntil_def)
  from ReadUntil_loop_Some_forwarded[OF this s]
  show "\<exists>evs. rx p = evs @ rx p' \<and>
          w' = Some (s\<lparr>written := written s @ filter (\<lambda>c. c \<noteq> EOT) (bytes_of evs)\<rparr>)" .
next
  assume s: "w_script s = []" and "rx p = map Byte xs @ Byte EOT # rest \<and> EOT \<notin> set xs"
  then have rx: "rx p = map Byte xs @ Byte EOT # rest" and xs: "EOT \<notin> set xs" by simp_all
  from xs have "filter (\<lambda>c. c \<noteq> EOT) xs = xs" by (induction xs) auto
  with ReadUntil_loop_Some_hit[OF rx xs s, of "[]"]
  show "ReadUntil [EOT] (Some s) p =
          (Inr [EOT], Some (s\<lparr>written := written s @ xs\<rparr>),
           p\<lparr>rx := rest, trace := trace p @ reads (xs @ [EOT])\<rparr>)"
    by (simp add: ReadUntil_def)
qed

text \<open>
  C5, witness: the ending \<open>>\<close> on the input \<open>a\<close>, \<open>0x04\<close>, \<open>b\<close>, \<open>>\<close>, \<open>c\<close> (the sink gets
  \<open>ab>\<close>), and the ending \<open>0x04\<close> on the input \<open>hi\<close>, \<open>0x04\<close>, \<open>z\<close> (the sink gets \<open>hi\<close>).
\<close>

theorem ReadUntil_sink_forwarding_witness:
  "w_script Buffer = [] \<and>
   ReadUntil ''>'' (Some Buffer)
       \<lparr>rx = map Byte (''a'' @ [EOT] @ ''b>c''), wr = [], trace = [], remote = None\<rparr> =
     (Inr ''>'', Some \<lparr>written = ''ab>'', w_script = []\<rparr>,
      \<lparr>rx = map Byte ''c'', wr = [], trace = reads (''a'' @ [EOT] @ ''b>''), remote = None\<rparr>) \<and>
   (\<exists>evs. map Byte (''a'' @ [EOT] @ ''b>c'') = evs @ map Byte ''c'' \<and>
          ''ab>'' = filter (\<lambda>c. c \<noteq> EOT) (bytes_of evs)) \<and>
   map Byte (''hi'' @ [EOT] @ ''z'') = map Byte ''hi'' @ Byte EOT # map Byte ''z'' \<and>
   EOT \<notin> set ''hi'' \<and>
   ReadUntil [EOT] (Some Buffer)
       \<lparr>rx = map Byte (''hi'' @ [EOT] @ ''z''), wr = [], trace = [], remote = None\<rparr> =
     (Inr [EOT], Some \<lparr>written = ''hi'', w_script = []\<rparr>,
      \<lparr>rx = map Byte ''z'', wr = [], trace = reads (''hi'' @ [EOT]), remote = None\<rparr>)"
proof -
  let ?p = "\<lparr>rx = map Byte (''a'' @ [EOT] @ ''b>c''), wr = [], trace = [], remote = None\<rparr>"
  let ?p' = "\<lparr>rx = map Byte ''c'', wr = [], trace = reads (''a'' @ [EOT] @ ''b>''), remote = None\<rparr>"
  let ?q = "\<lparr>rx = map Byte (''hi'' @ [EOT] @ ''z''), wr = [], trace = [], remote = None\<rparr>"
  have b: "w_script Buffer = []" by (simp add: Buffer_def)
  have run: "ReadUntil ''>'' (Some Buffer) ?p =
               (Inr ''>'', Some \<lparr>written = ''ab>'', w_script = []\<rparr>, ?p')"
    by (simp add: ReadUntil_def ReadUntil_loop_Byte ReadUntil_store_def Writer_Write_def
        Buffer_def HasSuffix_def)
  from ReadUntil_sink_forwarding[of Buffer "''>''" ?p "Inr ''>''"
      "Some \<lparr>written = ''ab>'', w_script = []\<rparr>" ?p' "''hi''" "map Byte ''z''"] b run
  have 1: "\<exists>evs. rx ?p = evs @ rx ?p' \<and>
             Some \<lparr>written = ''ab>'', w_script = []\<rparr> =
             Some (Buffer\<lparr>written := written Buffer @ filter (\<lambda>c. c \<noteq> EOT) (bytes_of evs)\<rparr>)"
    by blast
  then have 1: "\<exists>evs. map Byte (''a'' @ [EOT] @ ''b>c'') = evs @ map Byte ''c'' \<and>
          ''ab>'' = filter (\<lambda>c. c \<noteq> EOT) (bytes_of evs)"
    by (simp add: Buffer_def)
  from ReadUntil_sink_forwarding[of Buffer "[EOT]" ?q "Inl Timeout" None ?q "''hi''" "map Byte ''z''"] b
  have 2: "ReadUntil [EOT] (Some Buffer) ?q =
     (Inr [EOT], Some \<lparr>written = ''hi'', w_script = []\<rparr>,
      \<lparr>rx = map Byte ''z'', wr = [], trace = reads (''hi'' @ [EOT]), remote = None\<rparr>)"
    by (simp add: Buffer_def)
  from b run 1 2 show ?thesis by simp
qed


section \<open>Running a snippet\<close>

lemma HasSuffix_single_iff: "HasSuffix ys [t] \<longleftrightarrow> ys \<noteq> [] \<and> last ys = t"
proof (cases ys rule: rev_cases)
  case Nil
  then show ?thesis by (simp add: HasSuffix_def)
next
  case (snoc zs z)
  then show ?thesis by (simp add: HasSuffix_def)
qed

lemma first_end_single_byte:
  assumes "t \<notin> set xs"
  shows "first_end [t] [] (xs @ [t])"
proof -
  have "\<not> HasSuffix (take k (xs @ [t])) [t]" if "k \<in> {1..<length (xs @ [t])}" for k
  proof -
    from that have k: "0 < k" "k \<le> length xs" by simp_all
    then have ne: "take k xs \<noteq> []" by auto
    then have "last (take k xs) \<in> set (take k xs)" by (rule last_in_set)
    then have "last (take k xs) \<in> set xs" by (meson in_set_takeD)
    with assms have "last (take k xs) \<noteq> t" by auto
    with k ne show ?thesis by (simp add: HasSuffix_single_iff)
  qed
  then show ?thesis by (simp add: first_end_def HasSuffix_single_iff)
qed

lemma first_end_single_byteD:
  assumes "first_end [t] [] d"
  shows "\<exists>xs. d = xs @ [t] \<and> t \<notin> set xs"
proof -
  from assms have ne: "d \<noteq> []" and hs: "HasSuffix d [t]"
    and all: "\<forall>k \<in> {1..<length d}. \<not> HasSuffix (take k d) [t]"
    by (simp_all add: first_end_def)
  from hs have l: "last d = t" by (simp add: HasSuffix_single_iff)
  have "t \<notin> set (butlast d)"
  proof
    assume "t \<in> set (butlast d)"
    then obtain i where i: "i < length (butlast d)" "butlast d ! i = t"
      by (auto simp add: in_set_conv_nth)
    then have k: "Suc i \<in> {1..<length d}" by simp
    from i have "take (Suc i) d = take i d @ [t]"
      by (simp add: take_Suc_conv_app_nth nth_butlast)
    then have "HasSuffix (take (Suc i) d) [t]" by (simp add: HasSuffix_single_iff)
    with all k show False by blast
  qed
  moreover from ne l have "d = butlast d @ [t]" by (metis append_butlast_last_id)
  ultimately show ?thesis by blast
qed

lemma ReadUntil_None_single:
  assumes "rx p = map Byte xs @ Byte t # rest" "t \<notin> set xs"
  shows "ReadUntil [t] None p =
           (Inr (xs @ [t]), None, p\<lparr>rx := rest, trace := trace p @ reads (xs @ [t])\<rparr>)"
proof -
  from assms(1) have "rx p = map Byte (xs @ [t]) @ rest" by simp
  from ReadUntil_loop_None_hit[OF this first_end_single_byte[OF assms(2)]]
  show ?thesis by (simp add: ReadUntil_def)
qed

lemma ReadUntil_Some_single:
  assumes "rx p = map Byte xs @ Byte t # rest" "t \<notin> set xs" "w_script s = []"
  shows "ReadUntil [t] (Some s) p =
           (Inr [t], Some (s\<lparr>written := written s @ filter (\<lambda>c. c \<noteq> EOT) (xs @ [t])\<rparr>),
            p\<lparr>rx := rest, trace := trace p @ reads (xs @ [t])\<rparr>)"
  using ReadUntil_loop_Some_hit[OF assms, of "[]"] by (simp add: ReadUntil_def)

lemma filter_not_in: "t \<notin> set xs \<Longrightarrow> filter (\<lambda>c. c \<noteq> t) xs = xs"
  by (induction xs) auto

lemma Port_Write_ok: "wr p = [] \<Longrightarrow> Port_Write p bs = (None, deliver p bs)"
  by (simp add: Port_Write_def)

lemma Port_Write_fail:
  "wr p = Some e # ws \<Longrightarrow>
   Port_Write p bs = (Some e, p\<lparr>wr := ws, trace := trace p @ [Wr bs (Some e)]\<rparr>)"
  by (simp add: Port_Write_def)

lemma deliver_scripted:
  "remote p = None \<Longrightarrow> deliver p bs = p\<lparr>trace := trace p @ [Wr bs None]\<rparr>"
  by (simp add: deliver_def)

lemma wr_deliver [simp]: "wr (deliver p bs) = wr p"
  by (simp add: deliver_def split: option.splits prod.splits)

lemma ReadAtLeast_two:
  "rx p = Byte a # Byte b # rest \<Longrightarrow>
   ReadAtLeast p = (Inr [a, b], p\<lparr>rx := rest, trace := trace p @ [Rd (Byte a), Rd (Byte b)]\<rparr>)"
  by (simp add: ReadAtLeast_def Port_Read_Byte)

text \<open>
  \<open>ExecRaw\<close> on a port whose writes succeed: the prompt is awaited, the code and the
  byte \<open>0x04\<close> are handed over, and the next two bytes decide.
\<close>

lemma ExecRaw_steps:
  assumes "wr p = []" "rx p = map Byte junk @ Byte (CHR ''>'') # rest" "CHR ''>'' \<notin> set junk"
    and "deliver (deliver (p\<lparr>rx := rest, trace := trace p @ reads (junk @ ''>'')\<rparr>) code) [EOT] = q"
    and "rx q = Byte a # Byte b # rest'"
  shows "ExecRaw code p =
           (if [a, b] = ''OK'' then None else Some (New ''could not exec command''),
            q\<lparr>rx := rest', trace := trace q @ [Rd (Byte a), Rd (Byte b)]\<rparr>)"
proof -
  let ?p1 = "p\<lparr>rx := rest, trace := trace p @ reads (junk @ ''>'')\<rparr>"
  have 1: "ReadUntil ''>'' None p = (Inr (junk @ ''>''), None, ?p1)"
    using ReadUntil_None_single[OF assms(2,3)] by simp
  have 2: "Port_Write ?p1 code = (None, deliver ?p1 code)"
    by (rule Port_Write_ok) (simp add: assms(1))
  have 3: "Port_Write (deliver ?p1 code) [EOT] = (None, q)"
    using Port_Write_ok[of "deliver ?p1 code" "[EOT]"] assms(1,4) by simp
  note 4 = ReadAtLeast_two[OF assms(5)]
  show ?thesis
    unfolding ExecRaw_def 1 by (simp add: 2 3 4 del: reads_simps)
qed

lemma Follow_None_steps:
  assumes "rx q = map Byte out @ Byte EOT # map Byte err @ Byte EOT # rest"
    "EOT \<notin> set out" "EOT \<notin> set err"
  shows "Follow None q =
           (Inr (out, err), None,
            q\<lparr>rx := rest, trace := trace q @ reads (out @ [EOT] @ err @ [EOT])\<rparr>)"
proof -
  let ?q1 = "q\<lparr>rx := map Byte err @ Byte EOT # rest, trace := trace q @ reads (out @ [EOT])\<rparr>"
  have 1: "ReadUntil [EOT] None q = (Inr (out @ [EOT]), None, ?q1)"
    by (rule ReadUntil_None_single[OF assms(1,2)])
  have "rx ?q1 = map Byte err @ Byte EOT # rest" by simp
  from ReadUntil_None_single[OF this assms(3)]
  have 2: "ReadUntil [EOT] None ?q1 =
             (Inr (err @ [EOT]), None,
              q\<lparr>rx := rest, trace := trace q @ reads (out @ [EOT] @ err @ [EOT])\<rparr>)"
    by simp
  show ?thesis unfolding Follow_def 1 by (simp add: 2 del: reads_simps)
qed

lemma Follow_Some_steps:
  assumes "rx q = map Byte out @ Byte EOT # map Byte err @ Byte EOT # rest"
    "EOT \<notin> set out" "EOT \<notin> set err" "w_script s = []"
  shows "Follow (Some s) q =
           (Inr ([], err), Some (s\<lparr>written := written s @ out\<rparr>),
            q\<lparr>rx := rest, trace := trace q @ reads (out @ [EOT] @ err @ [EOT])\<rparr>)"
proof -
  let ?q1 = "q\<lparr>rx := map Byte err @ Byte EOT # rest, trace := trace q @ reads (out @ [EOT])\<rparr>"
  have 1: "ReadUntil [EOT] (Some s) q = (Inr [EOT], Some (s\<lparr>written := written s @ out\<rparr>), ?q1)"
    using ReadUntil_Some_single[OF assms(1,2,4)] by (simp add: filter_not_in[OF assms(2)])
  have "rx ?q1 = map Byte err @ Byte EOT # rest" by simp
  from ReadUntil_None_single[OF this assms(3)]
  have 2: "ReadUntil [EOT] None ?q1 =
             (Inr (err @ [EOT]), None,
              q\<lparr>rx := rest, trace := trace q @ reads (out @ [EOT] @ err @ [EOT])\<rparr>)"
    by simp
  show ?thesis unfolding Follow_def 1 by (simp add: 2 del: reads_simps)
qed

text \<open>
  \<open>Exec\<close> on a port whose writes succeed and whose input, once the snippet is handed
  over, is the acknowledgement and the two streams.
\<close>

lemma Exec_steps:
  assumes "wr p = []" "rx p = map Byte junk @ Byte (CHR ''>'') # rest" "CHR ''>'' \<notin> set junk"
    and "deliver (deliver (p\<lparr>rx := rest, trace := trace p @ reads (junk @ ''>'')\<rparr>) code) [EOT] = q"
    and "rx q = map Byte (''OK'' @ out @ [EOT] @ err @ [EOT]) @ rest'"
    and "EOT \<notin> set out" "EOT \<notin> set err"
  shows "Exec code None p =
           (if err = [] then Inr out else Inl (New err), None,
            q\<lparr>rx := rest', trace := trace q @ reads (''OK'' @ out @ [EOT] @ err @ [EOT])\<rparr>)"
    and "w_script s = [] \<Longrightarrow>
         Exec code (Some s) p =
           (if err = [] then Inr [] else Inl (New err), Some (s\<lparr>written := written s @ out\<rparr>),
            q\<lparr>rx := rest', trace := trace q @ reads (''OK'' @ out @ [EOT] @ err @ [EOT])\<rparr>)"
proof -
  let ?q1 = "q\<lparr>rx := map Byte out @ Byte EOT # map Byte err @ Byte EOT # rest',
               trace := trace q @ [Rd (Byte (CHR ''O'')), Rd (Byte (CHR ''K''))]\<rparr>"
  from assms(5) have "rx q = Byte (CHR ''O'') # Byte (CHR ''K'') #
      (map Byte out @ Byte EOT # map Byte err @ Byte EOT # rest')" by simp
  from ExecRaw_steps[OF assms(1-4) this] have 1: "ExecRaw code p = (None, ?q1)" by simp
  have rx1: "rx ?q1 = map Byte out @ Byte EOT # map Byte err @ Byte EOT # rest'" by simp
  from Follow_None_steps[OF rx1 assms(6,7)]
  have 2: "Follow None ?q1 =
             (Inr (out, err), None,
              q\<lparr>rx := rest', trace := trace q @ reads (''OK'' @ out @ [EOT] @ err @ [EOT])\<rparr>)"
    by simp
  show "Exec code None p =
           (if err = [] then Inr out else Inl (New err), None,
            q\<lparr>rx := rest', trace := trace q @ reads (''OK'' @ out @ [EOT] @ err @ [EOT])\<rparr>)"
    unfolding Exec_def 1 by (simp add: 2 del: reads_simps)
  assume s: "w_script s = []"
  from Follow_Some_steps[OF rx1 assms(6,7) s]
  have 3: "Follow (Some s) ?q1 =
             (Inr ([], err), Some (s\<lparr>written := written s @ out\<rparr>),
              q\<lparr>rx := rest', trace := trace q @ reads (''OK'' @ out @ [EOT] @ err @ [EOT])\<rparr>)"
    by simp
  show "Exec code (Some s) p =
           (if err = [] then Inr [] else Inl (New err), Some (s\<lparr>written := written s @ out\<rparr>),
            q\<lparr>rx := rest', trace := trace q @ reads (''OK'' @ out @ [EOT] @ err @ [EOT])\<rparr>)"
    unfolding Exec_def 1 by (simp add: 3 del: reads_simps)
qed

text \<open>The same on a link with scripted input, where a write changes nothing but the log.\<close>

lemma Exec_scripted:
  assumes "remote p = None" "wr p = []"
    and "rx p = map Byte (junk @ ''>OK'' @ out @ [EOT] @ err @ [EOT]) @ rest"
    and "CHR ''>'' \<notin> set junk" "EOT \<notin> set out" "EOT \<notin> set err"
  shows "Exec code None p =
           (if err = [] then Inr out else Inl (New err), None,
            p\<lparr>rx := rest,
              trace := trace p @ reads (junk @ ''>'') @ [Wr code None, Wr [EOT] None] @
                       reads (''OK'' @ out @ [EOT] @ err @ [EOT])\<rparr>)"
    and "w_script s = [] \<Longrightarrow>
         Exec code (Some s) p =
           (if err = [] then Inr [] else Inl (New err), Some (s\<lparr>written := written s @ out\<rparr>),
            p\<lparr>rx := rest,
              trace := trace p @ reads (junk @ ''>'') @ [Wr code None, Wr [EOT] None] @
                       reads (''OK'' @ out @ [EOT] @ err @ [EOT])\<rparr>)"
proof -
  let ?rest = "map Byte (''OK'' @ out @ [EOT] @ err @ [EOT]) @ rest"
  let ?q = "p\<lparr>rx := ?rest,
              trace := trace p @ reads (junk @ ''>'') @ [Wr code None, Wr [EOT] None]\<rparr>"
  from assms(3) have rx: "rx p = map Byte junk @ Byte (CHR ''>'') # ?rest" by simp
  have q: "deliver (deliver (p\<lparr>rx := ?rest, trace := trace p @ reads (junk @ ''>'')\<rparr>) code) [EOT] = ?q"
    by (simp add: deliver_scripted assms(1))
  have rxq: "rx ?q = map Byte (''OK'' @ out @ [EOT] @ err @ [EOT]) @ rest" by simp
  note E = Exec_steps[OF assms(2) rx assms(4) q rxq assms(5,6)]
  from E(1) show "Exec code None p =
           (if err = [] then Inr out else Inl (New err), None,
            p\<lparr>rx := rest,
              trace := trace p @ reads (junk @ ''>'') @ [Wr code None, Wr [EOT] None] @
                       reads (''OK'' @ out @ [EOT] @ err @ [EOT])\<rparr>)"
    by simp
  assume "w_script s = []"
  from E(2)[OF this] show "Exec code (Some s) p =
           (if err = [] then Inr [] else Inl (New err), Some (s\<lparr>written := written s @ out\<rparr>),
            p\<lparr>rx := rest,
              trace := trace p @ reads (junk @ ''>'') @ [Wr code None, Wr [EOT] None] @
                       reads (''OK'' @ out @ [EOT] @ err @ [EOT])\<rparr>)"
    by simp
qed


text \<open>What a successful step tells about the port it started from.\<close>

lemma Port_Write_None:
  assumes "Port_Write p bs = (None, p')"
  shows "list_all (\<lambda>r. r = None) (take 1 (wr p))" and "wr p' = tl (wr p)"
    and "remote p = None \<Longrightarrow> remote p' = None \<and> rx p' = rx p"
  using assms
  by (auto simp add: Port_Write_def deliver_scripted split: list.splits option.splits)

lemma ReadAtLeast_Inr:
  assumes "ReadAtLeast p = (Inr resp, p')"
  shows "\<exists>a b. resp = [a, b] \<and> rx p = Byte a # Byte b # rx p'"
  using assms
  by (auto simp add: ReadAtLeast_def Port_Read_def split: list.splits event.splits)

lemma ReadUntil_None_Inr:
  assumes "ReadUntil T None p = (Inr d, w', p')"
  shows "rx p = map Byte d @ rx p'" and "first_end T [] d"
    and "remote p' = remote p" and "wr p' = wr p"
proof -
  from assms have "ReadUntil_loop T None [] p = (Inr d, w', p')" by (simp add: ReadUntil_def)
  from ReadUntil_loop_None_Inr[OF this] obtain xs where
    xs: "rx p = map Byte xs @ rx p'" "first_end T [] xs" "d = [] @ xs"
        "p' = p\<lparr>rx := rx p', trace := trace p @ reads xs\<rparr>"
    by blast
  from xs show "rx p = map Byte d @ rx p'" "first_end T [] d" by simp_all
  from xs(4) have "remote p' = remote (p\<lparr>rx := rx p', trace := trace p @ reads xs\<rparr>)"
    "wr p' = wr (p\<lparr>rx := rx p', trace := trace p @ reads xs\<rparr>)" by simp_all
  then show "remote p' = remote p" "wr p' = wr p" by simp_all
qed

lemma ExecRaw_None:
  assumes "fst (ExecRaw code p) = None" "remote p = None"
  shows "\<exists>junk rest. rx p = map Byte (junk @ ''>OK'') @ rest \<and> CHR ''>'' \<notin> set junk"
    and "list_all (\<lambda>r. r = None) (take 2 (wr p))"
proof -
  obtain r1 w1 p1 where 1: "ReadUntil ''>'' None p = (r1, w1, p1)"
    by (cases "ReadUntil ''>'' None p") auto
  from assms(1) 1 obtain d where d: "r1 = Inr d"
    by (cases r1) (auto simp add: ExecRaw_def)
  note ru = ReadUntil_None_Inr[OF 1[unfolded d]]
  obtain e2 p2 where 2: "Port_Write p1 code = (e2, p2)" by (cases "Port_Write p1 code")
  from assms(1) 1 d 2 have e2: "e2 = None"
    by (cases e2) (auto simp add: ExecRaw_def)
  note w2 = Port_Write_None[OF 2[unfolded e2]]
  obtain e3 p3 where 3: "Port_Write p2 [EOT] = (e3, p3)" by (cases "Port_Write p2 [EOT]")
  from assms(1) 1 d 2 e2 3 have e3: "e3 = None"
    by (cases e3) (auto simp add: ExecRaw_def)
  note w3 = Port_Write_None[OF 3[unfolded e3]]
  obtain r4 p4 where 4: "ReadAtLeast p3 = (r4, p4)" by (cases "ReadAtLeast p3")
  from assms(1) 1 d 2 e2 3 e3 4 obtain resp where r4: "r4 = Inr resp" and ok: "resp = ''OK''"
    by (cases r4) (auto simp add: ExecRaw_def split: if_splits)
  from ReadAtLeast_Inr[OF 4[unfolded r4]] ok
  have rx3: "rx p3 = Byte (CHR ''O'') # Byte (CHR ''K'') # rx p4" by auto
  from ru(3) assms(2) have "remote p1 = None" by simp
  with w2(3) have "remote p2 = None" "rx p2 = rx p1" by simp_all
  with w3(3) have "rx p3 = rx p1" by simp
  with rx3 ru(1) have rx: "rx p = map Byte d @ Byte (CHR ''O'') # Byte (CHR ''K'') # rx p4" by simp
  from first_end_single_byteD[of "CHR ''>''" d] ru(2) obtain junk where
    junk: "d = junk @ ''>''" "CHR ''>'' \<notin> set junk" by auto
  from rx junk show "\<exists>junk rest. rx p = map Byte (junk @ ''>OK'') @ rest \<and> CHR ''>'' \<notin> set junk"
    by (intro exI[of _ junk] exI[of _ "rx p4"]) simp
  from w2(1,2) w3(1) ru(4) show "list_all (\<lambda>r. r = None) (take 2 (wr p))"
    by (cases "wr p"; cases "tl (wr p)") auto
qed


text \<open>
  \<open>ExecRaw\<close> on a link with scripted input whose next two writes succeed.
\<close>

lemma Port_Write_scripted:
  assumes "remote p = None" "list_all (\<lambda>r. r = None) (take 1 (wr p))"
  shows "Port_Write p bs = (None, p\<lparr>wr := tl (wr p), trace := trace p @ [Wr bs None]\<rparr>)"
proof (cases "wr p")
  case Nil
  then have "p\<lparr>wr := []\<rparr> = p" by (cases p) simp
  with Nil assms(1) show ?thesis
    by (simp add: Port_Write_def deliver_scripted)
next
  case (Cons r ws)
  with assms show ?thesis
    by (simp add: Port_Write_def deliver_scripted)
qed

lemma ExecRaw_scripted:
  assumes "remote p = None" "list_all (\<lambda>r. r = None) (take 2 (wr p))"
    and "rx p = map Byte junk @ Byte (CHR ''>'') # Byte a # Byte b # rest"
    and "CHR ''>'' \<notin> set junk"
  shows "ExecRaw code p =
           (if [a, b] = ''OK'' then None else Some (New ''could not exec command''),
            p\<lparr>rx := rest, wr := drop 2 (wr p),
              trace := trace p @ reads (junk @ ''>'') @ [Wr code None, Wr [EOT] None] @
                       reads [a, b]\<rparr>)"
proof -
  define rx1 where "rx1 = Byte a # Byte b # rest"
  let ?p1 = "p\<lparr>rx := rx1, trace := trace p @ reads (junk @ ''>'')\<rparr>"
  let ?p2 = "p\<lparr>rx := rx1, wr := tl (wr p),
               trace := trace p @ reads (junk @ ''>'') @ [Wr code None]\<rparr>"
  let ?p3 = "p\<lparr>rx := rx1, wr := tl (tl (wr p)),
               trace := trace p @ reads (junk @ ''>'') @ [Wr code None, Wr [EOT] None]\<rparr>"
  have 1: "ReadUntil ''>'' None p = (Inr (junk @ ''>''), None, ?p1)"
    using ReadUntil_None_single[OF assms(3,4)] by (simp add: rx1_def del: reads_simps)
  from assms(2) have w1: "list_all (\<lambda>r. r = None) (take 1 (wr ?p1))"
    by (cases "wr p") simp_all
  from assms(2) have w2: "list_all (\<lambda>r. r = None) (take 1 (wr ?p2))"
    by (cases "wr p"; cases "tl (wr p)") simp_all
  have r1: "remote ?p1 = None" and r2: "remote ?p2 = None" by (simp_all add: assms(1))
  have 2: "Port_Write ?p1 code = (None, ?p2)"
    using Port_Write_scripted[OF r1 w1, of code] by (simp del: reads_simps)
  have 3: "Port_Write ?p2 [EOT] = (None, ?p3)"
    using Port_Write_scripted[OF r2 w2, of "[EOT]"] by (simp del: reads_simps)
  have "rx ?p3 = Byte a # Byte b # rest" by (simp add: rx1_def)
  from ReadAtLeast_two[OF this]
  have 4: "ReadAtLeast ?p3 =
             (Inr [a, b],
              p\<lparr>rx := rest, wr := tl (tl (wr p)),
                trace := trace p @ reads (junk @ ''>'') @
                         [Wr code None, Wr [EOT] None, Rd (Byte a), Rd (Byte b)]\<rparr>)"
    by (simp del: reads_simps)
  have d: "tl (tl (wr p)) = drop 2 (wr p)"
    by (cases "wr p"; cases "tl (wr p)") simp_all
  show ?thesis
    unfolding ExecRaw_def 1 by (simp add: 2 3 4 d[symmetric] del: reads_simps) simp
qed

section \<open>Claims about \<^verbatim>\<open>ExecRaw\<close>, \<^verbatim>\<open>Exec\<close> and \<^verbatim>\<open>Ls\<close>\<close>

text \<open>
  C4. On a link with scripted input: when the next two writes succeed and the input is
  some bytes without \<open>>\<close>, then \<open>>\<close>, then two bytes \<open>a\<close>, \<open>b\<close>, the log of \<open>ExecRaw\<close>
  is the reads up to the prompt, the write of the code, the write of the byte \<open>0x04\<close>,
  and the reads of \<open>a\<close> and \<open>b\<close>, nothing more; the call succeeds if \<open>ab\<close> is \<open>OK\<close> and
  returns the error \<open>could not exec command\<close> otherwise. And the call succeeds exactly
  when the input is a prompt followed by \<open>OK\<close> and neither write fails.
\<close>

theorem ExecRaw_protocol:
  "remote p = None \<longrightarrow>
     (list_all (\<lambda>r. r = None) (take 2 (wr p)) \<and>
      rx p = map Byte (junk @ ''>'' @ [a, b]) @ rest \<and> CHR ''>'' \<notin> set junk \<longrightarrow>
        ExecRaw code p =
          (if [a, b] = ''OK'' then None else Some (New ''could not exec command''),
           p\<lparr>rx := rest, wr := drop 2 (wr p),
             trace := trace p @ reads (junk @ ''>'') @ [Wr code None, Wr [EOT] None] @
                      reads [a, b]\<rparr>)) \<and>
     (fst (ExecRaw code p) = None \<longleftrightarrow>
        (\<exists>junk rest. rx p = map Byte (junk @ ''>OK'') @ rest \<and> CHR ''>'' \<notin> set junk) \<and>
        list_all (\<lambda>r. r = None) (take 2 (wr p)))"
proof (intro impI conjI)
  assume r: "remote p = None"
    and "list_all (\<lambda>r. r = None) (take 2 (wr p)) \<and>
      rx p = map Byte (junk @ ''>'' @ [a, b]) @ rest \<and> CHR ''>'' \<notin> set junk"
  then have wr: "list_all (\<lambda>r. r = None) (take 2 (wr p))"
    and rx: "rx p = map Byte junk @ Byte (CHR ''>'') # Byte a # Byte b # rest"
    and junk: "CHR ''>'' \<notin> set junk" by simp_all
  from ExecRaw_scripted[OF r wr rx junk]
  show "ExecRaw code p =
          (if [a, b] = ''OK'' then None else Some (New ''could not exec command''),
           p\<lparr>rx := rest, wr := drop 2 (wr p),
             trace := trace p @ reads (junk @ ''>'') @ [Wr code None, Wr [EOT] None] @
                      reads [a, b]\<rparr>)" .
next
  assume r: "remote p = None"
  show "fst (ExecRaw code p) = None \<longleftrightarrow>
        (\<exists>junk rest. rx p = map Byte (junk @ ''>OK'') @ rest \<and> CHR ''>'' \<notin> set junk) \<and>
        list_all (\<lambda>r. r = None) (take 2 (wr p))"
    (is "?L \<longleftrightarrow> ?R")
  proof
    assume ?L
    from ExecRaw_None[OF this r] show ?R by blast
  next
    assume ?R
    then obtain junk' rest' where
      rx: "rx p = map Byte junk' @ Byte (CHR ''>'') # Byte (CHR ''O'') # Byte (CHR ''K'') # rest'"
      and junk: "CHR ''>'' \<notin> set junk'"
      and wr: "list_all (\<lambda>r. r = None) (take 2 (wr p))"
      by auto
    from ExecRaw_scripted[OF r wr rx junk] show ?L by simp
  qed
qed

text \<open>
  C4, witness: after the stray bytes \<open>x\<close>, \<open>y\<close> and the prompt, the reply \<open>OK\<close> makes
  the call succeed and the reply \<open>NO\<close> makes it fail; one more byte is left unread.
\<close>

theorem ExecRaw_protocol_witness:
  "remote \<lparr>rx = map Byte ''xy>OKz'', wr = [], trace = [], remote = None\<rparr> = None \<and>
   CHR ''>'' \<notin> set ''xy'' \<and>
   ExecRaw ''print(1)'' \<lparr>rx = map Byte ''xy>OKz'', wr = [], trace = [], remote = None\<rparr> =
     (None,
      \<lparr>rx = map Byte ''z'', wr = [],
       trace = reads ''xy>'' @ [Wr ''print(1)'' None, Wr [EOT] None] @ reads ''OK'',
       remote = None\<rparr>) \<and>
   ExecRaw ''print(1)'' \<lparr>rx = map Byte ''xy>NOz'', wr = [], trace = [], remote = None\<rparr> =
     (Some (New ''could not exec command''),
      \<lparr>rx = map Byte ''z'', wr = [],
       trace = reads ''xy>'' @ [Wr ''print(1)'' None, Wr [EOT] None] @ reads ''NO'',
       remote = None\<rparr>) \<and>
   (\<exists>junk rest. map Byte ''xy>OKz'' = map Byte (junk @ ''>OK'') @ rest \<and> CHR ''>'' \<notin> set junk) \<and>
   list_all (\<lambda>r. r = None) (take 2 ([] :: error option list))"
proof -
  let ?p = "\<lparr>rx = map Byte ''xy>OKz'', wr = [], trace = [], remote = None\<rparr>"
  let ?q = "\<lparr>rx = map Byte ''xy>NOz'', wr = [], trace = [], remote = None\<rparr>"
  have rp: "remote ?p = None" and rq: "remote ?q = None" by simp_all
  note ok = ExecRaw_protocol[of ?p "''xy''" "CHR ''O''" "CHR ''K''" "map Byte ''z''" "''print(1)''",
      THEN mp, OF rp]
  note no = ExecRaw_protocol[of ?q "''xy''" "CHR ''N''" "CHR ''O''" "map Byte ''z''" "''print(1)''",
      THEN mp, OF rq]
  have hp: "list_all (\<lambda>r. r = None) (take 2 (wr ?p)) \<and> rx ?p = map Byte (''xy'' @ ''>'' @ [CHR ''O'', CHR ''K'']) @ map Byte ''z'' \<and>
            CHR ''>'' \<notin> set ''xy''" by simp
  have hq: "list_all (\<lambda>r. r = None) (take 2 (wr ?q)) \<and> rx ?q = map Byte (''xy'' @ ''>'' @ [CHR ''N'', CHR ''O'']) @ map Byte ''z'' \<and>
            CHR ''>'' \<notin> set ''xy''" by simp
  from ok[THEN conjunct1, THEN mp, OF hp] have 1: "ExecRaw ''print(1)'' ?p =
     (None,
      \<lparr>rx = map Byte ''z'', wr = [],
       trace = reads ''xy>'' @ [Wr ''print(1)'' None, Wr [EOT] None] @ reads ''OK'',
       remote = None\<rparr>)"
    by simp
  from no[THEN conjunct1, THEN mp, OF hq] have 2: "ExecRaw ''print(1)'' ?q =
     (Some (New ''could not exec command''),
      \<lparr>rx = map Byte ''z'', wr = [],
       trace = reads ''xy>'' @ [Wr ''print(1)'' None, Wr [EOT] None] @ reads ''NO'',
       remote = None\<rparr>)"
    by simp
  from 1 have "fst (ExecRaw ''print(1)'' ?p) = None" by simp
  from ok[THEN conjunct2, THEN iffD1, OF this]
  have 3: "(\<exists>junk rest. map Byte ''xy>OKz'' = map Byte (junk @ ''>OK'') @ rest \<and> CHR ''>'' \<notin> set junk) \<and>
       list_all (\<lambda>r. r = None) (take 2 ([] :: error option list))"
    by (simp only: port.simps)
  from rp 1 2 3 show ?thesis by (simp only: simp_thms) simp
qed


text \<open>
  C2, as the code has it. \<open>Exec\<close> fails exactly when \<open>ExecRaw\<close> fails, or \<open>Follow\<close>
  fails, or the error data \<open>Follow\<close> returns is not empty, and then the error is
  \<open>New\<close> of that data. On a link with scripted input that holds a prompt, \<open>OK\<close>, the
  output stream \<open>out\<close>, \<open>0x04\<close>, the error stream \<open>err\<close>, \<open>0x04\<close>: with a non-empty
  \<open>err\<close> the call fails with an error whose message is \<open>err\<close>; with an empty \<open>err\<close> it
  succeeds and returns \<open>out\<close> when it has no sink, and when it has a sink it hands
  \<open>out\<close> to the sink and returns no bytes.
\<close>

theorem Exec_result:
  "(fst (Exec code w p) = Inl e \<longleftrightarrow>
      fst (ExecRaw code p) = Some e \<or>
      fst (ExecRaw code p) = None \<and>
      (fst (Follow w (snd (ExecRaw code p))) = Inl e \<or>
       (\<exists>data dataErr. fst (Follow w (snd (ExecRaw code p))) = Inr (data, dataErr) \<and>
                       dataErr \<noteq> [] \<and> e = New dataErr))) \<and>
   (remote p = None \<and> wr p = [] \<and>
    rx p = map Byte (junk @ ''>OK'' @ out @ [EOT] @ err @ [EOT]) @ rest \<and>
    CHR ''>'' \<notin> set junk \<and> EOT \<notin> set out \<and> EOT \<notin> set err \<longrightarrow>
      Error_msg (New err) = err \<and>
      fst (Exec code None p) = (if err = [] then Inr out else Inl (New err)) \<and>
      (w_script s = [] \<longrightarrow>
         fst (Exec code (Some s) p) = (if err = [] then Inr [] else Inl (New err)) \<and>
         fst (snd (Exec code (Some s) p)) = Some (s\<lparr>written := written s @ out\<rparr>)))"
proof (intro conjI impI)
  show "fst (Exec code w p) = Inl e \<longleftrightarrow>
      fst (ExecRaw code p) = Some e \<or>
      fst (ExecRaw code p) = None \<and>
      (fst (Follow w (snd (ExecRaw code p))) = Inl e \<or>
       (\<exists>data dataErr. fst (Follow w (snd (ExecRaw code p))) = Inr (data, dataErr) \<and>
                       dataErr \<noteq> [] \<and> e = New dataErr))"
  proof (cases "ExecRaw code p")
    case (Pair r1 p1)
    show ?thesis
    proof (cases r1)
      case (Some e1)
      with Pair show ?thesis by (auto simp add: Exec_def)
    next
      case None
      obtain r2 w2 p2 where f: "Follow w p1 = (r2, w2, p2)" by (cases "Follow w p1") auto
      show ?thesis
      proof (cases r2)
        case (Inl e2)
        with Pair None f show ?thesis by (auto simp add: Exec_def)
      next
        case (Inr dd)
        obtain data dataErr where dd: "dd = (data, dataErr)" by (cases dd)
        with Pair None f Inr show ?thesis by (auto simp add: Exec_def)
      qed
    qed
  qed
next
  assume h: "remote p = None \<and> wr p = [] \<and>
    rx p = map Byte (junk @ ''>OK'' @ out @ [EOT] @ err @ [EOT]) @ rest \<and>
    CHR ''>'' \<notin> set junk \<and> EOT \<notin> set out \<and> EOT \<notin> set err"
  then have a: "remote p = None" "wr p = []"
    "rx p = map Byte (junk @ ''>OK'' @ out @ [EOT] @ err @ [EOT]) @ rest"
    "CHR ''>'' \<notin> set junk" "EOT \<notin> set out" "EOT \<notin> set err"
    by blast+
  show "Error_msg (New err) = err" by simp
  from Exec_scripted(1)[OF a]
  show "fst (Exec code None p) = (if err = [] then Inr out else Inl (New err))"
    by (simp del: reads_simps)
  assume s: "w_script s = []"
  from Exec_scripted(2)[OF a s]
  show "fst (Exec code (Some s) p) = (if err = [] then Inr [] else Inl (New err))"
    and "fst (snd (Exec code (Some s) p)) = Some (s\<lparr>written := written s @ out\<rparr>)"
    by (simp_all del: reads_simps)
qed

text \<open>
  C2, witness: a snippet that prints \<open>hi\<close>, without and with a buffer as sink, and a
  snippet that prints \<open>hi\<close> and raises \<open>boom\<close>.
\<close>

theorem Exec_result_witness:
  "CHR ''>'' \<notin> set ''x'' \<and> EOT \<notin> set ''hi'' \<and> EOT \<notin> set ''boom'' \<and> w_script Buffer = [] \<and>
   fst (Exec ''c'' None
          \<lparr>rx = map Byte (''x>OKhi'' @ [EOT] @ [EOT] @ ''>''), wr = [], trace = [], remote = None\<rparr>)
     = Inr ''hi'' \<and>
   fst (Exec ''c'' (Some Buffer)
          \<lparr>rx = map Byte (''x>OKhi'' @ [EOT] @ [EOT] @ ''>''), wr = [], trace = [], remote = None\<rparr>)
     = Inr [] \<and>
   fst (snd (Exec ''c'' (Some Buffer)
          \<lparr>rx = map Byte (''x>OKhi'' @ [EOT] @ [EOT] @ ''>''), wr = [], trace = [], remote = None\<rparr>))
     = Some \<lparr>written = ''hi'', w_script = []\<rparr> \<and>
   fst (Exec ''c'' None
          \<lparr>rx = map Byte (''x>OKhi'' @ [EOT] @ ''boom'' @ [EOT] @ ''>''), wr = [], trace = [],
           remote = None\<rparr>)
     = Inl (New ''boom'') \<and>
   (fst (ExecRaw ''c''
          \<lparr>rx = map Byte (''x>OKhi'' @ [EOT] @ ''boom'' @ [EOT] @ ''>''), wr = [], trace = [],
           remote = None\<rparr>) = Some (New ''boom'') \<or>
    fst (ExecRaw ''c''
          \<lparr>rx = map Byte (''x>OKhi'' @ [EOT] @ ''boom'' @ [EOT] @ ''>''), wr = [], trace = [],
           remote = None\<rparr>) = None)"
proof -
  let ?p = "\<lparr>rx = map Byte (''x>OKhi'' @ [EOT] @ [EOT] @ ''>''), wr = [], trace = [], remote = None\<rparr>"
  let ?q = "\<lparr>rx = map Byte (''x>OKhi'' @ [EOT] @ ''boom'' @ [EOT] @ ''>''), wr = [], trace = [],
             remote = None\<rparr>"
  have b: "w_script Buffer = []" by (simp add: Buffer_def)
  have hp: "remote ?p = None \<and> wr ?p = [] \<and>
    rx ?p = map Byte (''x'' @ ''>OK'' @ ''hi'' @ [EOT] @ [] @ [EOT]) @ map Byte ''>'' \<and>
    CHR ''>'' \<notin> set ''x'' \<and> EOT \<notin> set ''hi'' \<and> EOT \<notin> set []" by simp
  have hq: "remote ?q = None \<and> wr ?q = [] \<and>
    rx ?q = map Byte (''x'' @ ''>OK'' @ ''hi'' @ [EOT] @ ''boom'' @ [EOT]) @ map Byte ''>'' \<and>
    CHR ''>'' \<notin> set ''x'' \<and> EOT \<notin> set ''hi'' \<and> EOT \<notin> set ''boom''" by simp
  note tp = Exec_result[of "''c''" None ?p "New ''boom''" "''x''" "''hi''" "[]" "map Byte ''>''" Buffer,
      THEN conjunct2, THEN mp, OF hp]
  note tq = Exec_result[of "''c''" None ?q "New ''boom''" "''x''" "''hi''" "''boom''" "map Byte ''>''" Buffer]
  from tp have 1: "fst (Exec ''c'' None ?p) = Inr ''hi''" by simp
  from tp b have 2: "fst (Exec ''c'' (Some Buffer) ?p) = Inr []"
    "fst (snd (Exec ''c'' (Some Buffer) ?p)) = Some \<lparr>written = ''hi'', w_script = []\<rparr>"
    by (simp_all add: Buffer_def)
  from tq[THEN conjunct2, THEN mp, OF hq] have 3: "fst (Exec ''c'' None ?q) = Inl (New ''boom'')"
    by simp
  from tq[THEN conjunct1, THEN iffD1, OF 3] have 4: "fst (ExecRaw ''c'' ?q) = Some (New ''boom'') \<or>
      fst (ExecRaw ''c'' ?q) = None" by (rule disjE) simp_all
  from b 1 2 3 4 show ?thesis by (simp only: simp_thms) simp
qed

text \<open>
  C2, counterexample: the remote side prints \<open>hi\<close> and reports no error. Called with a
  buffer as sink, \<open>Exec\<close> succeeds and returns no bytes, not the bytes \<open>hi\<close>.
\<close>

theorem Exec_sink_returns_empty_counterexample:
  "fst (Exec ''print(1)'' (Some Buffer)
          \<lparr>rx = [Byte (CHR ''>''), Byte (CHR ''O''), Byte (CHR ''K''), Byte (CHR ''h''),
                 Byte (CHR ''i''), Byte EOT, Byte EOT],
           wr = [], trace = [], remote = None\<rparr>) = Inr [] \<and>
   Inr [] \<noteq> (Inr ''hi'' :: error + string)"
  by (simp add: Exec_def ExecRaw_def Follow_def ReadAtLeast_def Port_Read_def Port_Write_def
      deliver_def ReadUntil_def ReadUntil_loop_Byte ReadUntil_store_def Writer_Write_def
      Buffer_def HasSuffix_def)

text \<open>
  C10. Whenever \<open>Follow\<close> returns error data that is not empty, \<open>Exec\<close> returns the
  error alone, whatever output data \<open>Follow\<close> returned with it. On a link with
  scripted input whose error stream \<open>err\<close> is not empty, the output stream \<open>out\<close> is
  read and not returned; a sink has received \<open>out\<close> all the same.
\<close>

theorem Exec_error_discards_stdout:
  "(fst (ExecRaw code p) = None \<and>
    fst (Follow w (snd (ExecRaw code p))) = Inr (data, dataErr) \<and> dataErr \<noteq> [] \<longrightarrow>
      fst (Exec code w p) = Inl (New dataErr)) \<and>
   (remote p = None \<and> wr p = [] \<and>
    rx p = map Byte (junk @ ''>OK'' @ out @ [EOT] @ err @ [EOT]) @ rest \<and>
    CHR ''>'' \<notin> set junk \<and> EOT \<notin> set out \<and> EOT \<notin> set err \<and> err \<noteq> [] \<longrightarrow>
      Exec code None p =
        (Inl (New err), None,
         p\<lparr>rx := rest,
           trace := trace p @ reads (junk @ ''>'') @ [Wr code None, Wr [EOT] None] @
                    reads (''OK'' @ out @ [EOT] @ err @ [EOT])\<rparr>) \<and>
      (w_script s = [] \<longrightarrow>
         Exec code (Some s) p =
           (Inl (New err), Some (s\<lparr>written := written s @ out\<rparr>),
            p\<lparr>rx := rest,
              trace := trace p @ reads (junk @ ''>'') @ [Wr code None, Wr [EOT] None] @
                       reads (''OK'' @ out @ [EOT] @ err @ [EOT])\<rparr>)))"
proof (intro conjI impI)
  assume "fst (ExecRaw code p) = None \<and>
    fst (Follow w (snd (ExecRaw code p))) = Inr (data, dataErr) \<and> dataErr \<noteq> []"
  then show "fst (Exec code w p) = Inl (New dataErr)"
    by (cases "ExecRaw code p"; cases "Follow w (snd (ExecRaw code p))")
       (auto simp add: Exec_def)
next
  assume h: "remote p = None \<and> wr p = [] \<and>
    rx p = map Byte (junk @ ''>OK'' @ out @ [EOT] @ err @ [EOT]) @ rest \<and>
    CHR ''>'' \<notin> set junk \<and> EOT \<notin> set out \<and> EOT \<notin> set err \<and> err \<noteq> []"
  then have a: "remote p = None" "wr p = []"
    "rx p = map Byte (junk @ ''>OK'' @ out @ [EOT] @ err @ [EOT]) @ rest"
    "CHR ''>'' \<notin> set junk" "EOT \<notin> set out" "EOT \<notin> set err" and e: "err \<noteq> []"
    by blast+
  from Exec_scripted(1)[OF a] e
  show "Exec code None p =
        (Inl (New err), None,
         p\<lparr>rx := rest,
           trace := trace p @ reads (junk @ ''>'') @ [Wr code None, Wr [EOT] None] @
                    reads (''OK'' @ out @ [EOT] @ err @ [EOT])\<rparr>)"
    by (simp del: reads_simps)
  assume s: "w_script s = []"
  from Exec_scripted(2)[OF a s] e
  show "Exec code (Some s) p =
           (Inl (New err), Some (s\<lparr>written := written s @ out\<rparr>),
            p\<lparr>rx := rest,
              trace := trace p @ reads (junk @ ''>'') @ [Wr code None, Wr [EOT] None] @
                       reads (''OK'' @ out @ [EOT] @ err @ [EOT])\<rparr>)"
    by (simp del: reads_simps)
qed

text \<open>
  C10, witness: a snippet that prints \<open>hi\<close> and raises \<open>boom\<close>, without and with a
  buffer as sink.
\<close>

theorem Exec_error_discards_stdout_witness:
  "CHR ''>'' \<notin> set ''x'' \<and> EOT \<notin> set ''hi'' \<and> EOT \<notin> set ''boom'' \<and> ''boom'' \<noteq> [] \<and>
   w_script Buffer = [] \<and>
   fst (Exec ''c'' None
          \<lparr>rx = map Byte (''x>OKhi'' @ [EOT] @ ''boom'' @ [EOT] @ ''>''), wr = [], trace = [],
           remote = None\<rparr>)
     = Inl (New ''boom'') \<and>
   fst (Exec ''c'' (Some Buffer)
          \<lparr>rx = map Byte (''x>OKhi'' @ [EOT] @ ''boom'' @ [EOT] @ ''>''), wr = [], trace = [],
           remote = None\<rparr>)
     = Inl (New ''boom'') \<and>
   fst (snd (Exec ''c'' (Some Buffer)
          \<lparr>rx = map Byte (''x>OKhi'' @ [EOT] @ ''boom'' @ [EOT] @ ''>''), wr = [], trace = [],
           remote = None\<rparr>))
     = Some \<lparr>written = ''hi'', w_script = []\<rparr>"
proof -
  let ?q = "\<lparr>rx = map Byte (''x>OKhi'' @ [EOT] @ ''boom'' @ [EOT] @ ''>''), wr = [], trace = [],
             remote = None\<rparr>"
  have b: "w_script Buffer = []" by (simp add: Buffer_def)
  have hq: "remote ?q = None \<and> wr ?q = [] \<and>
    rx ?q = map Byte (''x'' @ ''>OK'' @ ''hi'' @ [EOT] @ ''boom'' @ [EOT]) @ map Byte ''>'' \<and>
    CHR ''>'' \<notin> set ''x'' \<and> EOT \<notin> set ''hi'' \<and> EOT \<notin> set ''boom'' \<and> ''boom'' \<noteq> []" by simp
  note t = Exec_error_discards_stdout[of "''c''" ?q None "[]" "''boom''" "''x''" "''hi''" "''boom''"
      "map Byte ''>''" Buffer, THEN conjunct2, THEN mp, OF hq]
  from t have 1: "fst (Exec ''c'' None ?q) = Inl (New ''boom'')" by simp
  from t[THEN conjunct2, THEN mp, OF b]
  have 2: "fst (Exec ''c'' (Some Buffer) ?q) = Inl (New ''boom'')"
    "fst (snd (Exec ''c'' (Some Buffer) ?q)) = Some \<lparr>written = ''hi'', w_script = []\<rparr>"
    by (simp_all add: Buffer_def)
  from b 1 2 show ?thesis by (simp only: simp_thms) simp
qed


lemma TrimRight_space_snoc: "TrimRight_space (xs @ '' '') = TrimRight_space xs"
  by (simp add: TrimRight_space_def)

lemma TrimRight_space_id:
  "xs = [] \<or> last xs \<noteq> CHR '' '' \<Longrightarrow> TrimRight_space xs = xs"
  by (cases xs rule: rev_cases) (simp_all add: TrimRight_space_def)

lemma Split_space_no_space: "CHR '' '' \<notin> set xs \<Longrightarrow> Split_space xs = [xs]"
  by (induction xs) auto

lemma Split_space_append:
  "CHR '' '' \<notin> set xs \<Longrightarrow> Split_space (xs @ CHR '' '' # ys) = xs # Split_space ys"
  by (induction xs) auto

text \<open>
  C9. On a link with scripted input that holds a prompt, \<open>OK\<close>, the output \<open>out\<close> and
  an empty error stream, \<open>Ls\<close> returns \<open>out\<close> without its trailing spaces, split at
  every space. For an empty \<open>out\<close> that is the list of one empty string. The listing
  of a single file whose name is \<open>n1\<close>, a space, \<open>n2\<close> comes back as the two entries
  \<open>n1\<close> and \<open>n2\<close>.
\<close>

theorem Ls_splits_on_spaces:
  "remote p = None \<and> wr p = [] \<and>
   rx p = map Byte (junk @ ''>OK'' @ out @ [EOT, EOT]) @ rest \<and>
   CHR ''>'' \<notin> set junk \<and> EOT \<notin> set out \<longrightarrow>
     fst (Ls p) = Inr (Split_space (TrimRight_space out)) \<and>
     (out = [] \<longrightarrow> fst (Ls p) = Inr [[]]) \<and>
     (out = n1 @ '' '' @ n2 @ '' '' \<and> CHR '' '' \<notin> set n1 \<and> CHR '' '' \<notin> set n2 \<and> n2 \<noteq> [] \<longrightarrow>
        fst (Ls p) = Inr [n1, n2])"
proof (intro impI)
  assume h: "remote p = None \<and> wr p = [] \<and>
   rx p = map Byte (junk @ ''>OK'' @ out @ [EOT, EOT]) @ rest \<and>
   CHR ''>'' \<notin> set junk \<and> EOT \<notin> set out"
  then have a: "remote p = None" "wr p = []"
    "rx p = map Byte (junk @ ''>OK'' @ out @ [EOT] @ [] @ [EOT]) @ rest"
    "CHR ''>'' \<notin> set junk" "EOT \<notin> set out" "EOT \<notin> set []"
    by simp_all
  have b: "w_script Buffer = []" by (simp add: Buffer_def)
  from Exec_scripted(2)[OF a b, of ls_code]
  have ls: "fst (Ls p) = Inr (Split_space (TrimRight_space out))"
    by (simp add: Ls_def Bytes_def Buffer_def del: reads_simps)
  have two: "fst (Ls p) = Inr [n1, n2]"
    if "out = n1 @ '' '' @ n2 @ '' '' \<and> CHR '' '' \<notin> set n1 \<and> CHR '' '' \<notin> set n2 \<and> n2 \<noteq> []"
  proof -
    from that have o: "out = (n1 @ '' '' @ n2) @ '' ''" and n: "CHR '' '' \<notin> set n1"
      "CHR '' '' \<notin> set n2" "n2 \<noteq> []" by simp_all
    from n(3) have "last n2 \<in> set n2" by (rule last_in_set)
    with n(2) have "last n2 \<noteq> CHR '' ''" by metis
    with n(3) have "last (n1 @ '' '' @ n2) \<noteq> CHR '' ''" by simp
    then have "TrimRight_space out = n1 @ CHR '' '' # n2"
      unfolding o TrimRight_space_snoc by (simp add: TrimRight_space_id)
    with ls n show ?thesis
      by (simp add: Split_space_append Split_space_no_space)
  qed
  from ls two show "fst (Ls p) = Inr (Split_space (TrimRight_space out)) \<and>
     (out = [] \<longrightarrow> fst (Ls p) = Inr [[]]) \<and>
     (out = n1 @ '' '' @ n2 @ '' '' \<and> CHR '' '' \<notin> set n1 \<and> CHR '' '' \<notin> set n2 \<and> n2 \<noteq> [] \<longrightarrow>
        fst (Ls p) = Inr [n1, n2])"
    by (auto simp add: TrimRight_space_def)
qed

text \<open>
  C9, witness: an empty directory, and a directory with the one file \<open>my file\<close>.
\<close>

theorem Ls_splits_on_spaces_witness:
  "CHR ''>'' \<notin> set [] \<and> EOT \<notin> set [] \<and> EOT \<notin> set ''my file '' \<and>
   CHR '' '' \<notin> set ''my'' \<and> CHR '' '' \<notin> set ''file'' \<and> ''file'' \<noteq> [] \<and>
   fst (Ls \<lparr>rx = map Byte (''>OK'' @ [EOT, EOT] @ ''>''), wr = [], trace = [], remote = None\<rparr>)
     = Inr [[]] \<and>
   fst (Ls \<lparr>rx = map Byte (''>OKmy file '' @ [EOT, EOT] @ ''>''), wr = [], trace = [],
            remote = None\<rparr>)
     = Inr [''my'', ''file'']"
proof -
  let ?p = "\<lparr>rx = map Byte (''>OK'' @ [EOT, EOT] @ ''>''), wr = [], trace = [], remote = None\<rparr>"
  let ?q = "\<lparr>rx = map Byte (''>OKmy file '' @ [EOT, EOT] @ ''>''), wr = [], trace = [],
             remote = None\<rparr>"
  have hp: "remote ?p = None \<and> wr ?p = [] \<and>
     rx ?p = map Byte ([] @ ''>OK'' @ [] @ [EOT, EOT]) @ map Byte ''>'' \<and>
     CHR ''>'' \<notin> set [] \<and> EOT \<notin> set []" by simp
  have hq: "remote ?q = None \<and> wr ?q = [] \<and>
     rx ?q = map Byte ([] @ ''>OK'' @ ''my file '' @ [EOT, EOT]) @ map Byte ''>'' \<and>
     CHR ''>'' \<notin> set [] \<and> EOT \<notin> set ''my file ''" by simp
  from Ls_splits_on_spaces[of ?p "[]" "[]" "map Byte ''>''" "''my''" "''file''", THEN mp, OF hp]
  have 1: "fst (Ls ?p) = Inr [[]]" by blast
  have n: "''my file '' = ''my'' @ '' '' @ ''file'' @ '' '' \<and> CHR '' '' \<notin> set ''my'' \<and>
           CHR '' '' \<notin> set ''file'' \<and> ''file'' \<noteq> []" by simp
  from Ls_splits_on_spaces[of ?q "[]" "''my file ''" "map Byte ''>''" "''my''" "''file''", THEN mp, OF hq]
    n
  have 2: "fst (Ls ?q) = Inr [''my'', ''file'']" by blast
  from 1 2 show ?thesis by (simp only: simp_thms) simp
qed


section \<open>The claim about \<^verbatim>\<open>SoftReboot\<close>\<close>

text \<open>
  C7. On a link with scripted input, \<open>SoftReboot\<close> does one of the following, and its
  log and the input it leaves show that it does nothing more.
  If the write fails, its error is returned and nothing is read.
  If the write succeeds, the log starts with the write of the one byte \<open>0x04\<close>. Then:
  a read that fails before \<open>soft reboot\<close>, carriage return, line feed has been seen
  ends the call with its error, and no event after the failed read is consumed; after
  that banner, a read that fails before the raw mode banner has been seen does the
  same; an input that ends before either banner is complete ends the call with the
  timeout; and when both banners arrive, the second after the first, the call
  succeeds having read up to the end of the second banner.
\<close>

theorem SoftReboot_steps:
  "remote p = None \<longrightarrow>
     (wr p = Some e # ws \<longrightarrow>
        SoftReboot p = (Some e, p\<lparr>wr := ws, trace := trace p @ [Wr [EOT] (Some e)]\<rparr>)) \<and>
     (wr p = [] \<and> rx p = map Byte xs @ Fail e # rest \<and> no_end soft_reboot_banner [] xs \<longrightarrow>
        SoftReboot p =
          (Some e, p\<lparr>rx := rest, trace := trace p @ [Wr [EOT] None] @ reads xs @ [Rd (Fail e)]\<rparr>)) \<and>
     (wr p = [] \<and> rx p = map Byte xs \<and> no_end soft_reboot_banner [] xs \<longrightarrow>
        SoftReboot p =
          (Some Timeout,
           p\<lparr>rx := [], trace := trace p @ [Wr [EOT] None] @ reads xs @ [Rd (Fail Timeout)]\<rparr>)) \<and>
     (wr p = [] \<and> rx p = map Byte (xs @ ys) @ Fail e # rest \<and>
      first_end soft_reboot_banner [] xs \<and> no_end raw_repl_banner [] ys \<longrightarrow>
        SoftReboot p =
          (Some e,
           p\<lparr>rx := rest,
             trace := trace p @ [Wr [EOT] None] @ reads xs @ reads ys @ [Rd (Fail e)]\<rparr>)) \<and>
     (wr p = [] \<and> rx p = map Byte (xs @ ys) \<and>
      first_end soft_reboot_banner [] xs \<and> no_end raw_repl_banner [] ys \<longrightarrow>
        SoftReboot p =
          (Some Timeout,
           p\<lparr>rx := [],
             trace := trace p @ [Wr [EOT] None] @ reads xs @ reads ys @ [Rd (Fail Timeout)]\<rparr>)) \<and>
     (wr p = [] \<and> rx p = map Byte (xs @ ys) @ rest \<and>
      first_end soft_reboot_banner [] xs \<and> first_end raw_repl_banner [] ys \<longrightarrow>
        SoftReboot p =
          (None, p\<lparr>rx := rest, trace := trace p @ [Wr [EOT] None] @ reads xs @ reads ys\<rparr>))"
proof (intro impI conjI)
  assume "remote p = None" "wr p = Some e # ws"
  then show "SoftReboot p = (Some e, p\<lparr>wr := ws, trace := trace p @ [Wr [EOT] (Some e)]\<rparr>)"
    by (simp add: SoftReboot_def Port_Write_fail)
next
  assume r: "remote p = None"
    and h: "wr p = [] \<and> rx p = map Byte xs @ Fail e # rest \<and> no_end soft_reboot_banner [] xs"
  let ?p1 = "p\<lparr>trace := trace p @ [Wr [EOT] None]\<rparr>"
  from r h have w: "Port_Write p [EOT] = (None, ?p1)"
    by (simp add: Port_Write_ok deliver_scripted)
  from h have "rx ?p1 = map Byte xs @ Fail e # rest" "no_end soft_reboot_banner [] xs" by simp_all
  from ReadUntil_loop_None_fail[OF this]
  show "SoftReboot p =
          (Some e, p\<lparr>rx := rest, trace := trace p @ [Wr [EOT] None] @ reads xs @ [Rd (Fail e)]\<rparr>)"
    by (simp add: SoftReboot_def w ReadUntil_def)
next
  assume r: "remote p = None"
    and h: "wr p = [] \<and> rx p = map Byte xs \<and> no_end soft_reboot_banner [] xs"
  let ?p1 = "p\<lparr>trace := trace p @ [Wr [EOT] None]\<rparr>"
  from r h have w: "Port_Write p [EOT] = (None, ?p1)"
    by (simp add: Port_Write_ok deliver_scripted)
  from h have "rx ?p1 = map Byte xs" "no_end soft_reboot_banner [] xs" by simp_all
  from ReadUntil_loop_None_timeout[OF this]
  show "SoftReboot p =
          (Some Timeout,
           p\<lparr>rx := [], trace := trace p @ [Wr [EOT] None] @ reads xs @ [Rd (Fail Timeout)]\<rparr>)"
    by (simp add: SoftReboot_def w ReadUntil_def)
next
  assume r: "remote p = None"
    and h: "wr p = [] \<and> rx p = map Byte (xs @ ys) @ Fail e # rest \<and>
      first_end soft_reboot_banner [] xs \<and> no_end raw_repl_banner [] ys"
  let ?p1 = "p\<lparr>trace := trace p @ [Wr [EOT] None]\<rparr>"
  let ?p2 = "?p1\<lparr>rx := map Byte ys @ Fail e # rest, trace := trace ?p1 @ reads xs\<rparr>"
  from r h have w: "Port_Write p [EOT] = (None, ?p1)"
    by (simp add: Port_Write_ok deliver_scripted)
  from h have "rx ?p1 = map Byte xs @ (map Byte ys @ Fail e # rest)"
    "first_end soft_reboot_banner [] xs" by simp_all
  from ReadUntil_loop_None_hit[OF this]
  have 1: "ReadUntil soft_reboot_banner None ?p1 = (Inr xs, None, ?p2)"
    by (simp add: ReadUntil_def)
  from h have "rx ?p2 = map Byte ys @ Fail e # rest" "no_end raw_repl_banner [] ys" by simp_all
  from ReadUntil_loop_None_fail[OF this]
  have 2: "ReadUntil raw_repl_banner None ?p2 =
             (Inl e, None, ?p2\<lparr>rx := rest, trace := trace ?p2 @ reads ys @ [Rd (Fail e)]\<rparr>)"
    by (simp add: ReadUntil_def)
  show "SoftReboot p =
          (Some e,
           p\<lparr>rx := rest,
             trace := trace p @ [Wr [EOT] None] @ reads xs @ reads ys @ [Rd (Fail e)]\<rparr>)"
    unfolding SoftReboot_def w by (simp add: 1 2[simplified])
next
  assume r: "remote p = None"
    and h: "wr p = [] \<and> rx p = map Byte (xs @ ys) \<and>
      first_end soft_reboot_banner [] xs \<and> no_end raw_repl_banner [] ys"
  let ?p1 = "p\<lparr>trace := trace p @ [Wr [EOT] None]\<rparr>"
  let ?p2 = "?p1\<lparr>rx := map Byte ys, trace := trace ?p1 @ reads xs\<rparr>"
  from r h have w: "Port_Write p [EOT] = (None, ?p1)"
    by (simp add: Port_Write_ok deliver_scripted)
  from h have "rx ?p1 = map Byte xs @ map Byte ys"
    "first_end soft_reboot_banner [] xs" by simp_all
  from ReadUntil_loop_None_hit[OF this]
  have 1: "ReadUntil soft_reboot_banner None ?p1 = (Inr xs, None, ?p2)"
    by (simp add: ReadUntil_def)
  from h have "rx ?p2 = map Byte ys" "no_end raw_repl_banner [] ys" by simp_all
  from ReadUntil_loop_None_timeout[OF this]
  have 2: "ReadUntil raw_repl_banner None ?p2 =
             (Inl Timeout, None, ?p2\<lparr>rx := [], trace := trace ?p2 @ reads ys @ [Rd (Fail Timeout)]\<rparr>)"
    by (simp add: ReadUntil_def)
  show "SoftReboot p =
          (Some Timeout,
           p\<lparr>rx := [],
             trace := trace p @ [Wr [EOT] None] @ reads xs @ reads ys @ [Rd (Fail Timeout)]\<rparr>)"
    unfolding SoftReboot_def w by (simp add: 1 2[simplified])
next
  assume r: "remote p = None"
    and h: "wr p = [] \<and> rx p = map Byte (xs @ ys) @ rest \<and>
      first_end soft_reboot_banner [] xs \<and> first_end raw_repl_banner [] ys"
  let ?p1 = "p\<lparr>trace := trace p @ [Wr [EOT] None]\<rparr>"
  let ?p2 = "?p1\<lparr>rx := map Byte ys @ rest, trace := trace ?p1 @ reads xs\<rparr>"
  from r h have w: "Port_Write p [EOT] = (None, ?p1)"
    by (simp add: Port_Write_ok deliver_scripted)
  from h have "rx ?p1 = map Byte xs @ (map Byte ys @ rest)"
    "first_end soft_reboot_banner [] xs" by simp_all
  from ReadUntil_loop_None_hit[OF this]
  have 1: "ReadUntil soft_reboot_banner None ?p1 = (Inr xs, None, ?p2)"
    by (simp add: ReadUntil_def)
  from h have "rx ?p2 = map Byte ys @ rest" "first_end raw_repl_banner [] ys" by simp_all
  from ReadUntil_loop_None_hit[OF this]
  have 2: "ReadUntil raw_repl_banner None ?p2 =
             (Inr ys, None, ?p2\<lparr>rx := rest, trace := trace ?p2 @ reads ys\<rparr>)"
    by (simp add: ReadUntil_def)
  show "SoftReboot p =
          (None, p\<lparr>rx := rest, trace := trace p @ [Wr [EOT] None] @ reads xs @ reads ys\<rparr>)"
    unfolding SoftReboot_def w by (simp add: 1 2[simplified])
qed


lemma first_end_self: "T \<noteq> [] \<Longrightarrow> first_end T [] T"
  by (auto simp add: first_end_def HasSuffix_def)

lemma no_end_short: "length xs < length T \<Longrightarrow> no_end T [] xs"
  by (auto simp add: no_end_def HasSuffix_def)

text \<open>
  C7, witness: a failing write; a read error and the end of the input inside the
  first banner; a read error and the end of the input inside the second banner; and
  both banners followed by the prompt.
\<close>

theorem SoftReboot_steps_witness:
  "no_end soft_reboot_banner [] ''so'' \<and>
   first_end soft_reboot_banner [] soft_reboot_banner \<and>
   no_end raw_repl_banner [] ''raw'' \<and>
   first_end raw_repl_banner [] raw_repl_banner \<and>
   SoftReboot \<lparr>rx = map Byte ''so'', wr = [Some (IOError 5)], trace = [], remote = None\<rparr> =
     (Some (IOError 5),
      \<lparr>rx = map Byte ''so'', wr = [], trace = [Wr [EOT] (Some (IOError 5))], remote = None\<rparr>) \<and>
   SoftReboot \<lparr>rx = map Byte ''so'' @ [Fail EOF, Byte (CHR ''x'')], wr = [], trace = [],
               remote = None\<rparr> =
     (Some EOF,
      \<lparr>rx = [Byte (CHR ''x'')], wr = [],
       trace = [Wr [EOT] None] @ reads ''so'' @ [Rd (Fail EOF)], remote = None\<rparr>) \<and>
   SoftReboot \<lparr>rx = map Byte ''so'', wr = [], trace = [], remote = None\<rparr> =
     (Some Timeout,
      \<lparr>rx = [], wr = [],
       trace = [Wr [EOT] None] @ reads ''so'' @ [Rd (Fail Timeout)], remote = None\<rparr>) \<and>
   SoftReboot \<lparr>rx = map Byte (soft_reboot_banner @ ''raw'') @ [Fail EOF, Byte (CHR ''x'')],
               wr = [], trace = [], remote = None\<rparr> =
     (Some EOF,
      \<lparr>rx = [Byte (CHR ''x'')], wr = [],
       trace = [Wr [EOT] None] @ reads soft_reboot_banner @ reads ''raw'' @ [Rd (Fail EOF)],
       remote = None\<rparr>) \<and>
   SoftReboot \<lparr>rx = map Byte (soft_reboot_banner @ ''raw''), wr = [], trace = [],
               remote = None\<rparr> =
     (Some Timeout,
      \<lparr>rx = [], wr = [],
       trace = [Wr [EOT] None] @ reads soft_reboot_banner @ reads ''raw'' @ [Rd (Fail Timeout)],
       remote = None\<rparr>) \<and>
   SoftReboot \<lparr>rx = map Byte (soft_reboot_banner @ raw_repl_banner) @ map Byte ''>'',
               wr = [], trace = [], remote = None\<rparr> =
     (None,
      \<lparr>rx = map Byte ''>'', wr = [],
       trace = [Wr [EOT] None] @ reads soft_reboot_banner @ reads raw_repl_banner,
       remote = None\<rparr>)"
proof -
  have n1: "no_end soft_reboot_banner [] ''so''"
    by (rule no_end_short) (simp add: soft_reboot_banner_def)
  have f1: "first_end soft_reboot_banner [] soft_reboot_banner"
    by (rule first_end_self) (simp add: soft_reboot_banner_def)
  have n2: "no_end raw_repl_banner [] ''raw''"
    by (rule no_end_short) (simp add: raw_repl_banner_def)
  have f2: "first_end raw_repl_banner [] raw_repl_banner"
    by (rule first_end_self) (simp add: raw_repl_banner_def)
  let ?p1 = "\<lparr>rx = map Byte ''so'', wr = [Some (IOError 5)], trace = [], remote = None\<rparr>"
  let ?p2 = "\<lparr>rx = map Byte ''so'' @ [Fail EOF, Byte (CHR ''x'')], wr = [], trace = [],
              remote = None\<rparr>"
  let ?p3 = "\<lparr>rx = map Byte ''so'', wr = [], trace = [], remote = None\<rparr>"
  let ?p4 = "\<lparr>rx = map Byte (soft_reboot_banner @ ''raw'') @ [Fail EOF, Byte (CHR ''x'')],
               wr = [], trace = [], remote = None\<rparr>"
  let ?p5 = "\<lparr>rx = map Byte (soft_reboot_banner @ ''raw''), wr = [], trace = [],
               remote = None\<rparr>"
  let ?p6 = "\<lparr>rx = map Byte (soft_reboot_banner @ raw_repl_banner) @ map Byte ''>'',
               wr = [], trace = [], remote = None\<rparr>"
  have r: "remote ?p1 = None" "remote ?p2 = None" "remote ?p3 = None" "remote ?p4 = None"
    "remote ?p5 = None" "remote ?p6 = None" by simp_all
  have 1: "SoftReboot ?p1 =
     (Some (IOError 5),
      \<lparr>rx = map Byte ''so'', wr = [], trace = [Wr [EOT] (Some (IOError 5))], remote = None\<rparr>)"
    using SoftReboot_steps[of ?p1 "IOError 5" "[]", THEN mp, OF r(1), THEN conjunct1]
    by simp
  have 2: "SoftReboot ?p2 =
     (Some EOF,
      \<lparr>rx = [Byte (CHR ''x'')], wr = [],
       trace = [Wr [EOT] None] @ reads ''so'' @ [Rd (Fail EOF)], remote = None\<rparr>)"
    using SoftReboot_steps[of ?p2 EOF "[]" "''so''" "[Byte (CHR ''x'')]", THEN mp, OF r(2),
        THEN conjunct2, THEN conjunct1] n1
    by simp
  have 3: "SoftReboot ?p3 =
     (Some Timeout,
      \<lparr>rx = [], wr = [],
       trace = [Wr [EOT] None] @ reads ''so'' @ [Rd (Fail Timeout)], remote = None\<rparr>)"
    using SoftReboot_steps[of ?p3 EOF "[]" "''so''", THEN mp, OF r(3),
        THEN conjunct2, THEN conjunct2, THEN conjunct1] n1
    by simp
  have 4: "SoftReboot ?p4 =
     (Some EOF,
      \<lparr>rx = [Byte (CHR ''x'')], wr = [],
       trace = [Wr [EOT] None] @ reads soft_reboot_banner @ reads ''raw'' @ [Rd (Fail EOF)],
       remote = None\<rparr>)"
    using SoftReboot_steps[of ?p4 EOF "[]" soft_reboot_banner "[Byte (CHR ''x'')]" "''raw''",
        THEN mp, OF r(4), THEN conjunct2, THEN conjunct2, THEN conjunct2, THEN conjunct1] f1 n2
    by simp
  have 5: "SoftReboot ?p5 =
     (Some Timeout,
      \<lparr>rx = [], wr = [],
       trace = [Wr [EOT] None] @ reads soft_reboot_banner @ reads ''raw'' @ [Rd (Fail Timeout)],
       remote = None\<rparr>)"
    using SoftReboot_steps[of ?p5 EOF "[]" soft_reboot_banner "[]" "''raw''",
        THEN mp, OF r(5), THEN conjunct2, THEN conjunct2, THEN conjunct2, THEN conjunct2,
        THEN conjunct1] f1 n2
    by simp
  have 6: "SoftReboot ?p6 =
     (None,
      \<lparr>rx = map Byte ''>'', wr = [],
       trace = [Wr [EOT] None] @ reads soft_reboot_banner @ reads raw_repl_banner,
       remote = None\<rparr>)"
    using SoftReboot_steps[of ?p6 EOF "[]" soft_reboot_banner "map Byte ''>''"
        "raw_repl_banner",
        THEN mp, OF r(6), THEN conjunct2, THEN conjunct2, THEN conjunct2, THEN conjunct2,
        THEN conjunct2] f1 f2
    by simp
  from n1 f1 n2 f2 1 2 3 4 5 6 show ?thesis by (simp only: simp_thms)
qed


section \<open>The remote interpreter runs the generated snippets\<close>

lemma between_app: "between pre suf (pre @ m @ suf) = Some m"
  by (simp add: between_def)

lemma between_first:
  "pre = a # pre' \<Longrightarrow> code = b # code' \<Longrightarrow> a \<noteq> b \<Longrightarrow> between pre suf code = None"
  by (simp add: between_def)

text \<open>
  Each snippet of the driver is one of the programs of the interpreter: the texts are
  compared byte for byte, and the read size of the chunk snippet is the number it
  carries.
\<close>

lemma put_open_code_py: "put_open_code path = py_open_wb_pre @ path @ py_open_wb_suf"
  by (simp add: put_open_code_def put_open_pre_def put_open_suf_def
        py_open_wb_pre_def py_open_wb_suf_def)

lemma put_chunk_code_py: "put_chunk_code e = py_call_w_pre @ e @ py_call_w_suf"
  by (simp add: put_chunk_code_def put_chunk_pre_def put_chunk_suf_def
        py_call_w_pre_def py_call_w_suf_def)

lemma put_close_code_py: "put_close_code = py_close"
  by (simp add: put_close_code_def py_close_def)

lemma get_open_code_py: "get_open_code path = py_open_rb_pre @ path @ py_open_rb_suf"
  by (simp add: get_open_code_def get_open_pre_def get_open_suf_def
        py_open_rb_pre_def py_open_rb_suf_def)

lemma get_chunk_code_py: "get_chunk_code = py_read_pre @ ''256'' @ py_read_suf"
  by (simp add: get_chunk_code_def py_read_pre_def py_read_suf_def)

lemma decimal_256: "decimal ''256'' = Some 256"
  by (simp add: decimal_def)

lemma parse_put_close: "parse put_close_code = Some FClose"
  by (simp add: parse_def put_close_code_py)

lemma parse_get_chunk: "parse get_chunk_code = Some (GetChunk 256)"
proof -
  have ne: "get_chunk_code \<noteq> py_close"
    by (simp add: get_chunk_code_def py_close_def)
  have 1: "between py_read_pre py_read_suf get_chunk_code = Some ''256''"
    unfolding get_chunk_code_py by (rule between_app)
  from ne 1 show ?thesis
    by (simp add: parse_def decimal_256)
qed

lemma parse_put_chunk: "parse (put_chunk_code e) = Some (PutChunk e)"
proof -
  have ne: "put_chunk_code e \<noteq> py_close"
    by (simp add: put_chunk_code_def put_chunk_pre_def py_close_def)
  have 1: "between py_read_pre py_read_suf (put_chunk_code e) = None"
    by (rule between_first[of _ "CHR ''d''" _ _ "CHR ''w''"])
       (simp_all add: py_read_pre_def put_chunk_code_def put_chunk_pre_def)
  from ne 1 show ?thesis
    by (simp add: parse_def) (simp add: put_chunk_code_py between_app)
qed

lemma parse_put_open:
  assumes "plain_path path"
  shows "parse (put_open_code path) = Some (PutOpen path)"
proof -
  have ne: "put_open_code path \<noteq> py_close"
    by (simp add: put_open_code_def put_open_pre_def py_close_def)
  have 1: "between py_read_pre py_read_suf (put_open_code path) = None"
    by (rule between_first[of _ "CHR ''d''" _ _ "CHR ''f''"])
       (simp_all add: py_read_pre_def put_open_code_def put_open_pre_def)
  have 2: "between py_call_w_pre py_call_w_suf (put_open_code path) = None"
    by (rule between_first[of _ "CHR ''w''" _ _ "CHR ''f''"])
       (simp_all add: py_call_w_pre_def put_open_code_def put_open_pre_def)
  from ne 1 2 assms show ?thesis
    by (simp add: parse_def) (simp add: put_open_code_py between_app)
qed

lemma py_open_wb_pre_differs:
  "take (length py_open_wb_pre) (get_open_pre @ rest) \<noteq> py_open_wb_pre"
  by (simp add: py_open_wb_pre_def get_open_pre_def)

lemma parse_get_open:
  assumes "plain_path path"
  shows "parse (get_open_code path) = Some (GetOpen path)"
proof -
  have ne: "get_open_code path \<noteq> py_close"
    by (simp add: get_open_code_def get_open_pre_def py_close_def)
  have 1: "between py_read_pre py_read_suf (get_open_code path) = None"
    by (rule between_first[of _ "CHR ''d''" _ _ "CHR ''f''"])
       (simp_all add: py_read_pre_def get_open_code_def get_open_pre_def)
  have 2: "between py_call_w_pre py_call_w_suf (get_open_code path) = None"
    by (rule between_first[of _ "CHR ''w''" _ _ "CHR ''f''"])
       (simp_all add: py_call_w_pre_def get_open_code_def get_open_pre_def)
  have 3: "between py_open_wb_pre py_open_wb_suf (get_open_code path) = None"
    using py_open_wb_pre_differs[of "path @ get_open_suf"]
    by (simp add: between_def get_open_code_def)
  from ne 1 2 3 assms show ?thesis
    by (simp add: parse_def) (simp add: get_open_code_py between_app)
qed

text \<open>The encoded text is made of the alphabet and the padding character.\<close>

lemma encodeStd_chars:
  "c \<in> set encodeStd \<Longrightarrow> c \<noteq> EOT \<and> c \<noteq> CR \<and> c \<noteq> LF \<and> c \<noteq> DQ"
  by (auto simp add: encodeStd_def)

lemma EncodeToString_chars:
  assumes "c \<in> set (EncodeToString b)"
  shows "c \<noteq> EOT" "c \<noteq> CR" "c \<noteq> LF" "c \<noteq> DQ"
proof -
  from assms set_EncodeToString have "c = CHR ''='' \<or> c \<in> set encodeStd" by auto
  with encodeStd_chars show "c \<noteq> EOT" "c \<noteq> CR" "c \<noteq> LF" "c \<noteq> DQ" by auto
qed

lemma DecodeString_EncodeToString: "DecodeString (EncodeToString b) = Inr b"
proof -
  have "filter (\<lambda>c. c \<noteq> CR \<and> c \<noteq> LF) (EncodeToString b) = EncodeToString b"
    by (rule filter_True) (use EncodeToString_chars(2,3) in blast)
  then show ?thesis by (simp add: DecodeString_def decodeQuanta_EncodeToString)
qed

lemma EncodeToString_Nil_iff: "EncodeToString b = [] \<longleftrightarrow> b = []"
  by (induction b rule: EncodeToString.induct) (simp_all add: Let_def)

text \<open>No generated snippet holds the byte \<open>0x04\<close>.\<close>

lemma plain_path_no_EOT:
  assumes "plain_path path"
  shows "EOT \<notin> set path"
proof
  assume "EOT \<in> set path"
  with assms have "(32::nat) \<le> of_char EOT"
    unfolding plain_path_def list_all_iff by blast
  then show False by simp
qed

lemma no_EOT_put_open: "plain_path path \<Longrightarrow> EOT \<notin> set (put_open_code path)"
  by (simp add: put_open_code_def put_open_pre_def put_open_suf_def plain_path_no_EOT)

lemma no_EOT_get_open: "plain_path path \<Longrightarrow> EOT \<notin> set (get_open_code path)"
  by (simp add: get_open_code_def get_open_pre_def get_open_suf_def plain_path_no_EOT)

lemma no_EOT_put_chunk: "EOT \<notin> set (put_chunk_code (EncodeToString b))"
  using EncodeToString_chars(1)[of EOT b]
  by (auto simp add: put_chunk_code_def put_chunk_pre_def put_chunk_suf_def)

lemma no_EOT_put_close: "EOT \<notin> set put_close_code"
  by (simp add: put_close_code_def)

lemma no_EOT_get_chunk: "EOT \<notin> set get_chunk_code"
  by (simp add: get_chunk_code_def)

text \<open>What the device does with the bytes of a write.\<close>

lemma feed_no_EOT: "EOT \<notin> set bs \<Longrightarrow> feed d bs = (d\<lparr>d_line := d_line d @ bs\<rparr>, [])"
  by (induction bs arbitrary: d) auto

lemma feed_EOT:
  "run (d\<lparr>d_line := []\<rparr>) (d_line d) = (d', out, err) \<Longrightarrow>
   feed d [EOT] = (d', ''OK'' @ out @ [EOT] @ err @ [EOT] @ ''>'')"
  by simp

text \<open>
  \<open>Exec\<close> against the device: the port holds just the prompt, the device has no
  unfinished input, and the snippet makes the device print \<open>out\<close> and report \<open>err\<close>.
\<close>

lemma Exec_remote:
  assumes "wr p = []" "rx p = [Byte (CHR ''>'')]" "remote p = Some d" "d_line d = []"
    and "EOT \<notin> set code" "run (d\<lparr>d_line := []\<rparr>) code = (d', out, err)"
    and "EOT \<notin> set out" "EOT \<notin> set err"
  shows "Exec code None p =
           (if err = [] then Inr out else Inl (New err), None,
            p\<lparr>rx := [Byte (CHR ''>'')], trace := trace p @ exec_log code out err,
              remote := Some d'\<rparr>)"
    and "w_script s = [] \<Longrightarrow>
         Exec code (Some s) p =
           (if err = [] then Inr [] else Inl (New err), Some (s\<lparr>written := written s @ out\<rparr>),
            p\<lparr>rx := [Byte (CHR ''>'')], trace := trace p @ exec_log code out err,
              remote := Some d'\<rparr>)"
proof -
  let ?p1 = "p\<lparr>rx := [], trace := trace p @ reads ([] @ ''>'')\<rparr>"
  let ?q = "p\<lparr>rx := map Byte (''OK'' @ out @ [EOT] @ err @ [EOT]) @ [Byte (CHR ''>'')],
              trace := trace p @ [Rd (Byte (CHR ''>'')), Wr code None, Wr [EOT] None],
              remote := Some d'\<rparr>"
  from assms(2) have rx: "rx p = map Byte [] @ Byte (CHR ''>'') # []" by simp
  have 1: "deliver ?p1 code =
             ?p1\<lparr>trace := trace ?p1 @ [Wr code None], remote := Some (d\<lparr>d_line := code\<rparr>)\<rparr>"
    using assms(3,4,5) by (simp add: deliver_def feed_no_EOT)
  have "run (d\<lparr>d_line := code\<rparr>\<lparr>d_line := []\<rparr>) (d_line (d\<lparr>d_line := code\<rparr>)) = (d', out, err)"
    using assms(6) by simp
  from feed_EOT[OF this]
  have 2: "deliver (deliver ?p1 code) [EOT] = ?q"
    unfolding 1 by (simp add: deliver_def)
  have rxq: "rx ?q = map Byte (''OK'' @ out @ [EOT] @ err @ [EOT]) @ [Byte (CHR ''>'')]" by simp
  have nj: "CHR ''>'' \<notin> set []" by simp
  note E = Exec_steps[OF assms(1) rx nj 2 rxq assms(7,8)]
  from E(1) show "Exec code None p =
           (if err = [] then Inr out else Inl (New err), None,
            p\<lparr>rx := [Byte (CHR ''>'')], trace := trace p @ exec_log code out err,
              remote := Some d'\<rparr>)"
    by (simp add: exec_log_def del: reads_simps)
  assume "w_script s = []"
  from E(2)[OF this] show "Exec code (Some s) p =
           (if err = [] then Inr [] else Inl (New err), Some (s\<lparr>written := written s @ out\<rparr>),
            p\<lparr>rx := [Byte (CHR ''>'')], trace := trace p @ exec_log code out err,
              remote := Some d'\<rparr>)"
    by (simp add: exec_log_def del: reads_simps)
qed


lemma run_put_open:
  "plain_path path \<Longrightarrow>
   run d (put_open_code path) =
     (d\<lparr>d_files := (d_files d)(path \<mapsto> []), d_f := Some (Writing path), d_w := True\<rparr>, [], [])"
  by (simp add: run_def parse_put_open)

lemma run_put_chunk:
  "d_w d \<Longrightarrow> d_f d = Some (Writing path) \<Longrightarrow> d_files d path = Some old \<Longrightarrow>
   run d (put_chunk_code (EncodeToString b)) =
     (d\<lparr>d_files := (d_files d)(path \<mapsto> old @ b)\<rparr>, [], [])"
  by (simp add: run_def parse_put_chunk DecodeString_EncodeToString)

lemma run_put_close:
  "d_f d = Some h \<Longrightarrow> run d put_close_code = (d\<lparr>d_f := None\<rparr>, [], [])"
  by (simp add: run_def parse_put_close)

lemma run_get_open:
  "plain_path path \<Longrightarrow> d_files d path = Some c \<Longrightarrow>
   run d (get_open_code path) = (d\<lparr>d_f := Some (Reading path 0)\<rparr>, [], [])"
  by (simp add: run_def parse_get_open)

lemma run_get_chunk:
  "d_f d = Some (Reading path pos) \<Longrightarrow> d_files d path = Some c \<Longrightarrow>
   run d get_chunk_code =
     (d\<lparr>d_f := Some (Reading path (pos + length (take 256 (drop pos c))))\<rparr>,
      EncodeToString (take 256 (drop pos c)), [])"
  by (simp add: run_def parse_get_chunk Let_def)

lemma device_line_id: "d_line d = [] \<Longrightarrow> d\<lparr>d_line := []\<rparr> = d"
  by (cases d) simp

text \<open>One snippet in a session at the prompt, without and with a buffer as sink.\<close>

lemma Exec_at_prompt:
  assumes "d_line d = []" "EOT \<notin> set code" "run d code = (d', out, [])" "EOT \<notin> set out"
  shows "Exec code None (at_prompt d t) = (Inr out, None, at_prompt d' (t @ exec_log code out []))"
    and "Exec code (Some Buffer) (at_prompt d t) =
           (Inr [], Some (Buffer\<lparr>written := out\<rparr>), at_prompt d' (t @ exec_log code out []))"
proof -
  have p: "wr (at_prompt d t) = []" "rx (at_prompt d t) = [Byte (CHR ''>'')]"
    "remote (at_prompt d t) = Some d"
    by (simp_all add: at_prompt_def)
  from assms(1,3) have r: "run (d\<lparr>d_line := []\<rparr>) code = (d', out, [])"
    by (simp add: device_line_id)
  have e: "EOT \<notin> set []" by simp
  note E = Exec_remote[OF p assms(1,2) r assms(4) e]
  from E(1) show "Exec code None (at_prompt d t) =
      (Inr out, None, at_prompt d' (t @ exec_log code out []))"
    by (simp add: at_prompt_def)
  have "w_script Buffer = []" by (simp add: Buffer_def)
  from E(2)[OF this] show "Exec code (Some Buffer) (at_prompt d t) =
      (Inr [], Some (Buffer\<lparr>written := out\<rparr>), at_prompt d' (t @ exec_log code out []))"
    by (simp add: at_prompt_def Buffer_def)
qed

lemma chunks_Nil [simp]: "chunks n [] = []"
  by (simp add: chunks.simps)

lemma chunks_step: "0 < n \<Longrightarrow> xs \<noteq> [] \<Longrightarrow> chunks n xs = take n xs # chunks n (drop n xs)"
  by (subst chunks.simps) simp

lemma concat_chunks: "0 < n \<Longrightarrow> concat (chunks n xs) = xs"
proof (induction "length xs" arbitrary: xs rule: less_induct)
  case less
  show ?case
  proof (cases "xs = []")
    case True
    then show ?thesis by simp
  next
    case False
    with less.prems have "length (drop n xs) < length xs" by simp
    from less.hyps[OF this less.prems] False less.prems show ?thesis
      by (simp add: chunks_step)
  qed
qed

text \<open>The chunk loop of \<open>Put\<close> against a device that holds the destination open.\<close>

lemma Put_loop_remote:
  assumes "lfs (f_name f) = Some c" "d_line d = []" "d_w d" "d_f d = Some (Writing r)"
    "d_files d r = Some old"
  shows "Put_loop lfs f (at_prompt d t) =
           (None,
            at_prompt (d\<lparr>d_files := (d_files d)(r \<mapsto> old @ drop (f_off f) c)\<rparr>)
              (t @ put_chunks_log (drop (f_off f) c)))"
  using assms
proof (induction "length c - f_off f" arbitrary: f d t old rule: less_induct)
  case less
  show ?case
  proof (cases "length c \<le> f_off f")
    case True
    with less.prems(1) have "File_Read lfs f 256 = (Inl EOF, f)" by (simp add: File_Read_def)
    moreover from less.prems(5) have "(d_files d)(r \<mapsto> old) = d_files d" by auto
    ultimately show ?thesis using True
      by (subst Put_loop.simps) (simp add: put_chunks_log_def)
  next
    case False
    let ?b = "take 256 (drop (f_off f) c)"
    let ?f' = "f\<lparr>f_off := f_off f + length ?b\<rparr>"
    let ?d' = "d\<lparr>d_files := (d_files d)(r \<mapsto> old @ ?b)\<rparr>"
    let ?t' = "t @ exec_log (put_chunk_code (EncodeToString ?b)) [] []"
    from False have ne: "drop (f_off f) c \<noteq> []" "?b \<noteq> []" by simp_all
    from False less.prems(1) have rd: "File_Read lfs f 256 = (Inr ?b, ?f')"
      by (simp add: File_Read_def)
    have run: "run d (put_chunk_code (EncodeToString ?b)) = (?d', [], [])"
      by (rule run_put_chunk[OF less.prems(3,4,5)])
    have e: "EOT \<notin> set []" by simp
    note ex = Exec_at_prompt(1)[OF less.prems(2) no_EOT_put_chunk run e, of t]
    have m: "length c - f_off ?f' < length c - f_off f" using False ne by simp
    have "Put_loop lfs ?f' (at_prompt ?d' ?t') =
            (None,
             at_prompt (?d'\<lparr>d_files := (d_files ?d')(r \<mapsto> (old @ ?b) @ drop (f_off ?f') c)\<rparr>)
               (?t' @ put_chunks_log (drop (f_off ?f') c)))"
      by (rule less.hyps[OF m]) (simp_all add: less.prems)
    moreover have "drop (f_off ?f') c = drop 256 (drop (f_off f) c)"
      by (simp add: min_def add.commute)
    moreover have "?b @ drop 256 (drop (f_off f) c) = drop (f_off f) c"
      by (rule append_take_drop_id)
    moreover have "put_chunks_log (drop (f_off f) c) =
        exec_log (put_chunk_code (EncodeToString ?b)) [] [] @
        put_chunks_log (drop 256 (drop (f_off f) c))"
      by (simp add: put_chunks_log_def chunks_step[OF _ ne(1)])
    ultimately have "Put_loop lfs ?f' (at_prompt ?d' ?t') =
            (None,
             at_prompt (d\<lparr>d_files := (d_files d)(r \<mapsto> old @ drop (f_off f) c)\<rparr>)
               (t @ put_chunks_log (drop (f_off f) c)))"
      by simp
    with rd ex show ?thesis
      by (subst Put_loop.simps) simp
  qed
qed

lemma Put_remote:
  assumes "lfs src = Some c" "plain_path dst" "d_line d = []"
  shows "Put dst src lfs (at_prompt d t) =
           (None,
            at_prompt (d\<lparr>d_files := (d_files d)(dst \<mapsto> c), d_f := None, d_w := True\<rparr>)
              (t @ exec_log (put_open_code dst) [] [] @ put_chunks_log c @
               exec_log put_close_code [] []))"
proof -
  let ?f = "\<lparr>f_name = src, f_off = 0\<rparr>"
  let ?d1 = "d\<lparr>d_files := (d_files d)(dst \<mapsto> []), d_f := Some (Writing dst), d_w := True\<rparr>"
  let ?t1 = "t @ exec_log (put_open_code dst) [] []"
  let ?d2 = "?d1\<lparr>d_files := (d_files ?d1)(dst \<mapsto> [] @ drop (f_off ?f) c)\<rparr>"
  let ?t2 = "?t1 @ put_chunks_log (drop (f_off ?f) c)"
  have e: "EOT \<notin> set []" by simp
  from assms(1) have 0: "OpenFile_RDONLY lfs src = Inr ?f" by (simp add: OpenFile_RDONLY_def)
  note 1 = Exec_at_prompt(1)[OF assms(3) no_EOT_put_open[OF assms(2)] run_put_open[OF assms(2)] e,
      of t]
  have 2: "Put_loop lfs ?f (at_prompt ?d1 ?t1) = (None, at_prompt ?d2 ?t2)"
    by (rule Put_loop_remote) (simp_all add: assms)
  have l2: "d_line ?d2 = []" using assms(3) by simp
  have "d_f ?d2 = Some (Writing dst)" by simp
  note 3 = Exec_at_prompt(1)[OF l2 no_EOT_put_close run_put_close[OF this] e, of ?t2]
  show ?thesis
    unfolding Put_def 0 by (simp add: 1 2 3[simplified]) (cases d, simp)
qed


text \<open>
  The chunk loop of \<open>Get\<close> against a device that holds the source open for reading at
  position \<open>pos\<close>. The local file holds \<open>done\<close>, written so far, and then \<open>tail\<close>, what
  is left of its old content.
\<close>

lemma File_Write_at_end_of_done:
  assumes "lfs (f_name f) = Some (done @ tail)" "f_off f = length done"
  shows "File_Write lfs f x =
           (lfs(f_name f \<mapsto> (done @ x) @ drop (length x) tail),
            f\<lparr>f_off := length (done @ x)\<rparr>)"
  using assms by (simp add: File_Write_def Let_def)

lemma min_nat_eq_0: "min (a::nat) b = 0 \<longleftrightarrow> a = 0 \<or> b = 0"
  by (auto simp add: min_def)

lemma take_chunk_append_drop:
  "take n (drop pos c) @ drop (pos + length (take n (drop pos c))) c = drop pos c"
proof -
  have e: "drop (pos + length (take n (drop pos c))) c = drop n (drop pos c)"
    by (cases "n \<le> length c - pos") (simp_all add: min_def add.commute)
  show ?thesis unfolding e by (rule append_take_drop_id)
qed

lemma take_chunk_append_drop_more:
  "take n (drop pos c) @ drop (pos + min (length c - pos) n) c @ z = drop pos c @ z"
proof -
  have "take n (drop pos c) @ drop (pos + min (length c - pos) n) c = drop pos c"
    using take_chunk_append_drop[of n pos c] by simp
  then show ?thesis by (metis append_assoc)
qed

lemma Get_loop_remote:
  assumes "lfs (f_name f) = Some (done @ tail)" "f_off f = length done"
    "d_line d = []" "d_f d = Some (Reading r pos)" "d_files d r = Some c" "pos \<le> length c"
  shows "Get_loop lfs f (at_prompt d t) =
           Some (None,
                 lfs(f_name f \<mapsto> done @ drop pos c @ drop (length c - pos) tail),
                 at_prompt (d\<lparr>d_f := Some (Reading r (length c))\<rparr>)
                   (t @ get_chunks_log (drop pos c)))"
  using assms
proof (induction "length c - pos" arbitrary: f lfs d t pos "done" tail rule: less_induct)
  case less
  let ?b = "take 256 (drop pos c)"
  let ?d' = "d\<lparr>d_f := Some (Reading r (pos + length ?b))\<rparr>"
  let ?t' = "t @ exec_log get_chunk_code (EncodeToString ?b) []"
  have run: "run d get_chunk_code = (?d', EncodeToString ?b, [])"
    by (rule run_get_chunk[OF less.prems(4,5)])
  have ne: "EOT \<notin> set (EncodeToString ?b)"
    using EncodeToString_chars(1)[of EOT ?b] by blast
  note ex = Exec_at_prompt(2)[OF less.prems(3) no_EOT_get_chunk run ne, of t]
  have bts: "Bytes (Some (Buffer\<lparr>written := EncodeToString ?b\<rparr>)) = EncodeToString ?b"
    by (simp add: Bytes_def)
  show ?case
  proof (cases "pos = length c")
    case True
    then have b: "?b = []" by simp
    from less.prems(1) have "lfs(f_name f \<mapsto> done @ tail) = lfs" by auto
    with True b show ?thesis
      by (subst Get_loop.simps)
         (simp add: ex Bytes_def DecodeString_EncodeToString[of "[]", simplified]
            get_chunks_log_def)
  next
    case False
    with less.prems(6) have lt: "pos < length c" by simp
    then have b: "?b \<noteq> []" "drop pos c \<noteq> []" by simp_all
    let ?lfs' = "lfs(f_name f \<mapsto> (done @ ?b) @ drop (length ?b) tail)"
    let ?f' = "f\<lparr>f_off := length (done @ ?b)\<rparr>"
    note fw = File_Write_at_end_of_done[where lfs = lfs and f = f and x = ?b
        and tail = tail and ?done = "done", OF less.prems(1,2)]
    have m: "length c - (pos + length ?b) < length c - pos" using lt by simp
    have le: "pos + length ?b \<le> length c" using lt by simp
    have "Get_loop ?lfs' ?f' (at_prompt ?d' ?t') =
            Some (None,
                  ?lfs'(f_name ?f' \<mapsto> (done @ ?b) @ drop (pos + length ?b) c @
                          drop (length c - (pos + length ?b)) (drop (length ?b) tail)),
                  at_prompt (?d'\<lparr>d_f := Some (Reading r (length c))\<rparr>)
                    (?t' @ get_chunks_log (drop (pos + length ?b) c)))"
    proof (rule less.hyps[OF m])
      show "pos + length ?b \<le> length c" by (rule le)
    qed (simp_all add: less.prems)
    moreover have "drop (length c - (pos + length ?b)) (drop (length ?b) tail) =
        drop (length c - pos) tail"
      using le by simp
    moreover have "drop (pos + length ?b) c = drop 256 (drop pos c)"
      by (cases "256 \<le> length c - pos") (simp_all add: min_def add.commute)
    then have "get_chunks_log (drop pos c) =
        exec_log get_chunk_code (EncodeToString ?b) [] @ get_chunks_log (drop (pos + length ?b) c)"
      by (simp add: get_chunks_log_def chunks_step[OF _ b(2)])
    ultimately have rec: "Get_loop ?lfs' ?f' (at_prompt ?d' ?t') =
            Some (None,
                  lfs(f_name f \<mapsto> done @ drop pos c @ drop (length c - pos) tail),
                  at_prompt (d\<lparr>d_f := Some (Reading r (length c))\<rparr>)
                    (t @ get_chunks_log (drop pos c)))"
      by (simp add: take_chunk_append_drop_more)
    from b(1) have "EncodeToString ?b \<noteq> []" by (simp add: EncodeToString_Nil_iff)
    with b(1) rec lt show ?thesis
      by (subst Get_loop.simps)
         (simp add: ex bts DecodeString_EncodeToString fw min_nat_eq_0)
  qed
qed

lemma Get_remote:
  assumes "dst \<noteq> []" "plain_path src" "d_line d = []" "d_files d src = Some c"
  shows "Get dst src lfs (at_prompt d t) =
           Some (None,
                 lfs(dst \<mapsto> overwrite (case lfs dst of None \<Rightarrow> [] | Some old \<Rightarrow> old) c),
                 at_prompt (d\<lparr>d_f := Some (Reading src (length c))\<rparr>)
                   (t @ exec_log (get_open_code src) [] [] @ get_chunks_log c))"
proof -
  let ?old = "case lfs dst of None \<Rightarrow> [] | Some old \<Rightarrow> old"
  let ?f = "\<lparr>f_name = dst, f_off = 0\<rparr>"
  let ?lfs1 = "lfs(dst \<mapsto> ?old)"
  let ?d1 = "d\<lparr>d_f := Some (Reading src 0)\<rparr>"
  let ?t1 = "t @ exec_log (get_open_code src) [] []"
  have e: "EOT \<notin> set []" by simp
  from assms(1) have 0: "OpenFile_WRONLY_CREATE lfs dst = (Inr ?f, ?lfs1)"
    by (auto simp add: OpenFile_WRONLY_CREATE_def split: option.splits)
  note 1 = Exec_at_prompt(1)[OF assms(3) no_EOT_get_open[OF assms(2)]
      run_get_open[OF assms(2,4)] e, of t]
  have "Get_loop ?lfs1 ?f (at_prompt ?d1 ?t1) =
          Some (None,
                ?lfs1(f_name ?f \<mapsto> [] @ drop 0 c @ drop (length c - 0) ?old),
                at_prompt (?d1\<lparr>d_f := Some (Reading src (length c))\<rparr>)
                  (?t1 @ get_chunks_log (drop 0 c)))"
    by (rule Get_loop_remote[where ?done = "[]" and tail = ?old and pos = 0]) (simp_all add: assms)
  then have 2: "Get_loop ?lfs1 ?f (at_prompt ?d1 ?t1) =
          Some (None, lfs(dst \<mapsto> overwrite ?old c),
                at_prompt (d\<lparr>d_f := Some (Reading src (length c))\<rparr>)
                  (t @ exec_log (get_open_code src) [] [] @ get_chunks_log c))"
    by (simp add: overwrite_def)
  show ?thesis
    unfolding Get_def 0 by (simp add: 1 2)
qed

text \<open>An upload followed by a download of the same remote file.\<close>

lemma Put_Get_remote:
  assumes "lfs src = Some c" "plain_path r" "d_line d = []" "dst \<noteq> []"
  shows "\<exists>p1 p2. Put r src lfs (at_prompt d t) = (None, p1) \<and>
           Get dst r lfs p1 =
             Some (None,
                   lfs(dst \<mapsto> overwrite (case lfs dst of None \<Rightarrow> [] | Some old \<Rightarrow> old) c),
                   p2)"
proof -
  let ?d1 = "d\<lparr>d_files := (d_files d)(r \<mapsto> c), d_f := None, d_w := True\<rparr>"
  have "d_line ?d1 = []" "d_files ?d1 r = Some c" using assms(3) by simp_all
  note g = Get_remote[where dst = dst and src = r and d = ?d1 and c = c and lfs = lfs,
      OF assms(4,2) this]
  note p = Put_remote[where lfs = lfs and src = src and c = c and dst = r and d = d and t = t,
      OF assms(1,2,3)]
  from p g show ?thesis by blast
qed


section \<open>Claims about \<^verbatim>\<open>Put\<close> and \<^verbatim>\<open>Get\<close>\<close>

text \<open>
  When the destination of a download does not exist, or is no longer than the file
  that was uploaded, an upload followed by a download gives the destination the
  content of the uploaded file.
\<close>

lemma Put_Get_roundtrip:
  assumes "lfs src = Some c" "plain_path r" "d_line d = []" "dst \<noteq> []"
    and "lfs dst = None \<or> (\<exists>old. lfs dst = Some old \<and> length old \<le> length c)"
  shows "\<exists>p1 p2 lfs'. Put r src lfs (at_prompt d t) = (None, p1) \<and>
           Get dst r lfs p1 = Some (None, lfs', p2) \<and> lfs' dst = Some c"
proof -
  from assms(5) have "overwrite (case lfs dst of None \<Rightarrow> [] | Some old \<Rightarrow> old) c = c"
    by (auto simp add: overwrite_def)
  with Put_Get_remote[where lfs = lfs and src = src and c = c and r = r and d = d
      and dst = dst and t = t, OF assms(1-4)]
  show ?thesis by auto
qed

lemma run_get_open_missing:
  "plain_path path \<Longrightarrow> d_files d path = None \<Longrightarrow>
   run d (get_open_code path) = (d, [], remote_error)"
  by (simp add: run_def parse_get_open)

lemma chunks_300:
  assumes "length c = 300"
  shows "chunks 256 c = [take 256 c, drop 256 c]"
proof -
  from assms have 1: "c \<noteq> []" and 2: "drop 256 c \<noteq> []" by auto
  from assms have 3: "take 256 (drop 256 c) = drop 256 c" "drop 512 c = []"
    by simp_all
  have p: "(0::nat) < 256" by simp
  show ?thesis
    by (simp add: chunks_step[OF p 1] chunks_step[OF p 2] 3)
qed

text \<open>
  C1, on the input where the code fails: the local file \<open>a\<close> holds \<open>hi\<close>, and the
  local file \<open>b\<close> exists and holds \<open>WXYZ\<close>. After \<open>Put\<close> of \<open>a\<close> to the remote file \<open>r\<close>
  and \<open>Get\<close> of \<open>r\<close> into \<open>b\<close>, both successful, \<open>b\<close> holds \<open>hiYZ\<close>.
\<close>

theorem Put_Get_stale_tail:
  "Put ''r'' ''a'' [''a'' \<mapsto> ''hi'', ''b'' \<mapsto> ''WXYZ'']
     (at_prompt \<lparr>d_files = Map.empty, d_f = None, d_w = False, d_line = []\<rparr> []) =
     (None,
      at_prompt \<lparr>d_files = [''r'' \<mapsto> ''hi''], d_f = None, d_w = True, d_line = []\<rparr>
        (exec_log (put_open_code ''r'') [] [] @ put_chunks_log ''hi'' @
         exec_log put_close_code [] [])) \<and>
   Get ''b'' ''r'' [''a'' \<mapsto> ''hi'', ''b'' \<mapsto> ''WXYZ'']
     (at_prompt \<lparr>d_files = [''r'' \<mapsto> ''hi''], d_f = None, d_w = True, d_line = []\<rparr>
        (exec_log (put_open_code ''r'') [] [] @ put_chunks_log ''hi'' @
         exec_log put_close_code [] [])) =
     Some (None, [''a'' \<mapsto> ''hi'', ''b'' \<mapsto> ''hiYZ''],
           at_prompt \<lparr>d_files = [''r'' \<mapsto> ''hi''], d_f = Some (Reading ''r'' 2), d_w = True,
                       d_line = []\<rparr>
             ((exec_log (put_open_code ''r'') [] [] @ put_chunks_log ''hi'' @
               exec_log put_close_code [] []) @
              exec_log (get_open_code ''r'') [] [] @ get_chunks_log ''hi'')) \<and>
   ''hiYZ'' \<noteq> ''hi''"
proof -
  let ?lfs = "[''a'' \<mapsto> ''hi'', ''b'' \<mapsto> ''WXYZ'']"
  let ?d = "\<lparr>d_files = Map.empty, d_f = None, d_w = False, d_line = []\<rparr>"
  let ?d1 = "\<lparr>d_files = [''r'' \<mapsto> ''hi''], d_f = None, d_w = True, d_line = []\<rparr>"
  let ?t1 = "exec_log (put_open_code ''r'') [] [] @ put_chunks_log ''hi'' @
             exec_log put_close_code [] []"
  have pl: "plain_path ''r''" by (simp add: plain_path_def)
  have a: "?lfs ''a'' = Some ''hi''" by simp
  have l: "d_line ?d = []" "d_line ?d1 = []" by simp_all
  have f: "d_files ?d1 ''r'' = Some ''hi''" by simp
  have ne: "''b'' \<noteq> []" by simp
  from Put_remote[where lfs = ?lfs and src = "''a''" and c = "''hi''" and dst = "''r''"
      and d = ?d and t = "[]", OF a pl l(1)]
  have 1: "Put ''r'' ''a'' ?lfs (at_prompt ?d []) = (None, at_prompt ?d1 ?t1)"
    by simp
  from Get_remote[where dst = "''b''" and src = "''r''" and d = ?d1 and c = "''hi''"
      and lfs = ?lfs and t = ?t1, OF ne pl l(2) f]
  have 2: "Get ''b'' ''r'' ?lfs (at_prompt ?d1 ?t1) =
     Some (None, [''a'' \<mapsto> ''hi'', ''b'' \<mapsto> ''hiYZ''],
           at_prompt \<lparr>d_files = [''r'' \<mapsto> ''hi''], d_f = Some (Reading ''r'' 2), d_w = True,
                       d_line = []\<rparr>
             (?t1 @ exec_log (get_open_code ''r'') [] [] @ get_chunks_log ''hi''))"
    by (simp add: overwrite_def numeral_2_eq_2)
  from 1 2 show ?thesis by simp
qed

text \<open>
  C6. A local file \<open>c\<close> of 300 bytes is uploaded in four snippets, each run to its
  answer: the text that imports \<^verbatim>\<open>a2b_base64\<close>, opens the remote path with mode
  \<^verbatim>\<open>'wb'\<close> as \<^verbatim>\<open>f\<close> and defines the helper \<^verbatim>\<open>w\<close>; \<^verbatim>\<open>w("...")\<close> and a line feed
  with the base64 text of the first 256 bytes; the same with the base64 text of the
  other 44 bytes; and \<^verbatim>\<open>f.close()\<close>. After them the remote file holds \<open>c\<close> and is
  closed. A remote file \<open>c\<close> of 300 bytes is downloaded in four snippets: the text that
  imports \<^verbatim>\<open>b2a_base64\<close> and opens the remote path with mode \<^verbatim>\<open>'rb'\<close>, and three
  times the text that prints the stripped base64 text of \<^verbatim>\<open>f.read(256)\<close>, to which
  the interpreter, reading as many bytes as the text asks for, answers the first 256
  bytes, the other 44 and nothing; the three answers decode to chunks of 256, 44 and 0
  bytes, and the reading position ends at 300. The texts are written out in the
  statement, byte for byte.
\<close>

theorem Put_Get_300_bytes:
  "length c = 300 \<and> plain_path r \<and> d_line d = [] \<longrightarrow>
     length (take 256 c) = 256 \<and> length (drop 256 c) = 44 \<and>
     map DecodeString [EncodeToString (take 256 c), EncodeToString (drop 256 c), []] =
       [Inr (take 256 c), Inr (drop 256 c), Inr []] \<and>
     (lfs src = Some c \<longrightarrow>
        Put r src lfs (at_prompt d t) =
          (None,
           at_prompt (d\<lparr>d_files := (d_files d)(r \<mapsto> c), d_f := None, d_w := True\<rparr>)
             (t @ exec_log
                (''from ubinascii import a2b_base64'' @ [LF] @ ''f=open('' @ [DQ] @ r @ [DQ] @
                 '','' @ [SQ] @ ''wb'' @ [SQ] @ '')'' @ [LF] @
                 ''w=lambda x:f.write(a2b_base64(x))'' @ [LF]) [] [] @
              exec_log (''w('' @ [DQ] @ EncodeToString (take 256 c) @ [DQ] @ '')'' @ [LF]) [] [] @
              exec_log (''w('' @ [DQ] @ EncodeToString (drop 256 c) @ [DQ] @ '')'' @ [LF]) [] [] @
              exec_log ''f.close()'' [] []))) \<and>
     (d_files d r = Some c \<and> dst \<noteq> [] \<longrightarrow>
        Get dst r lfs (at_prompt d t) =
          Some (None,
                lfs(dst \<mapsto> overwrite (case lfs dst of None \<Rightarrow> [] | Some old \<Rightarrow> old) c),
                at_prompt (d\<lparr>d_f := Some (Reading r 300)\<rparr>)
                  (t @ exec_log
                     (''from ubinascii import b2a_base64'' @ [LF] @ ''f=open('' @ [DQ] @ r @ [DQ] @
                      '','' @ [SQ] @ ''rb'' @ [SQ] @ '')'' @ [LF]) [] [] @
                   exec_log
                     (''d=str(b2a_base64(f.read(256)),'' @ [SQ] @ ''ascii'' @ [SQ] @ '')'' @ [LF] @
                      ''print(d.strip(),end='' @ [SQ, SQ] @ '')'' @ [LF])
                     (EncodeToString (take 256 c)) [] @
                   exec_log
                     (''d=str(b2a_base64(f.read(256)),'' @ [SQ] @ ''ascii'' @ [SQ] @ '')'' @ [LF] @
                      ''print(d.strip(),end='' @ [SQ, SQ] @ '')'' @ [LF])
                     (EncodeToString (drop 256 c)) [] @
                   exec_log
                     (''d=str(b2a_base64(f.read(256)),'' @ [SQ] @ ''ascii'' @ [SQ] @ '')'' @ [LF] @
                      ''print(d.strip(),end='' @ [SQ, SQ] @ '')'' @ [LF])
                     [] [])))"
proof (intro impI conjI)
  assume h: "length c = 300 \<and> plain_path r \<and> d_line d = []"
  then have c: "length c = 300" and r: "plain_path r" and d: "d_line d = []" by simp_all
  from c show "length (take 256 c) = 256" "length (drop 256 c) = 44" by simp_all
  show "map DecodeString [EncodeToString (take 256 c), EncodeToString (drop 256 c), []] =
       [Inr (take 256 c), Inr (drop 256 c), Inr []]"
    using DecodeString_EncodeToString[of "[]"] by (simp add: DecodeString_EncodeToString)
  {
    assume s: "lfs src = Some c"
    from Put_remote[where lfs = lfs and src = src and c = c and dst = r and d = d and t = t,
        OF s r d]
    have "Put r src lfs (at_prompt d t) =
          (None,
           at_prompt (d\<lparr>d_files := (d_files d)(r \<mapsto> c), d_f := None, d_w := True\<rparr>)
             (t @ exec_log (put_open_code r) [] [] @
              exec_log (put_chunk_code (EncodeToString (take 256 c))) [] [] @
              exec_log (put_chunk_code (EncodeToString (drop 256 c))) [] [] @
              exec_log put_close_code [] []))"
      by (simp add: put_chunks_log_def chunks_300[OF c])
    then show "Put r src lfs (at_prompt d t) =
          (None,
           at_prompt (d\<lparr>d_files := (d_files d)(r \<mapsto> c), d_f := None, d_w := True\<rparr>)
             (t @ exec_log
                (''from ubinascii import a2b_base64'' @ [LF] @ ''f=open('' @ [DQ] @ r @ [DQ] @
                 '','' @ [SQ] @ ''wb'' @ [SQ] @ '')'' @ [LF] @
                 ''w=lambda x:f.write(a2b_base64(x))'' @ [LF]) [] [] @
              exec_log (''w('' @ [DQ] @ EncodeToString (take 256 c) @ [DQ] @ '')'' @ [LF]) [] [] @
              exec_log (''w('' @ [DQ] @ EncodeToString (drop 256 c) @ [DQ] @ '')'' @ [LF]) [] [] @
              exec_log ''f.close()'' [] []))"
      by (simp add: put_open_code_def put_open_pre_def put_open_suf_def put_chunk_code_def
            put_chunk_pre_def put_chunk_suf_def put_close_code_def)
  }
  {
    assume "d_files d r = Some c \<and> dst \<noteq> []"
    then have f: "d_files d r = Some c" and n: "dst \<noteq> []" by simp_all
    from Get_remote[where dst = dst and src = r and d = d and c = c and lfs = lfs and t = t,
        OF n r d f]
    have "Get dst r lfs (at_prompt d t) =
          Some (None,
                lfs(dst \<mapsto> overwrite (case lfs dst of None \<Rightarrow> [] | Some old \<Rightarrow> old) c),
                at_prompt (d\<lparr>d_f := Some (Reading r 300)\<rparr>)
                  (t @ exec_log (get_open_code r) [] [] @
                   exec_log get_chunk_code (EncodeToString (take 256 c)) [] @
                   exec_log get_chunk_code (EncodeToString (drop 256 c)) [] @
                   exec_log get_chunk_code [] []))"
      by (simp add: get_chunks_log_def chunks_300[OF c] c)
    then show "Get dst r lfs (at_prompt d t) =
          Some (None,
                lfs(dst \<mapsto> overwrite (case lfs dst of None \<Rightarrow> [] | Some old \<Rightarrow> old) c),
                at_prompt (d\<lparr>d_f := Some (Reading r 300)\<rparr>)
                  (t @ exec_log
                     (''from ubinascii import b2a_base64'' @ [LF] @ ''f=open('' @ [DQ] @ r @ [DQ] @
                      '','' @ [SQ] @ ''rb'' @ [SQ] @ '')'' @ [LF]) [] [] @
                   exec_log
                     (''d=str(b2a_base64(f.read(256)),'' @ [SQ] @ ''ascii'' @ [SQ] @ '')'' @ [LF] @
                      ''print(d.strip(),end='' @ [SQ, SQ] @ '')'' @ [LF])
                     (EncodeToString (take 256 c)) [] @
                   exec_log
                     (''d=str(b2a_base64(f.read(256)),'' @ [SQ] @ ''ascii'' @ [SQ] @ '')'' @ [LF] @
                      ''print(d.strip(),end='' @ [SQ, SQ] @ '')'' @ [LF])
                     (EncodeToString (drop 256 c)) [] @
                   exec_log
                     (''d=str(b2a_base64(f.read(256)),'' @ [SQ] @ ''ascii'' @ [SQ] @ '')'' @ [LF] @
                      ''print(d.strip(),end='' @ [SQ, SQ] @ '')'' @ [LF])
                     [] []))"
      by (simp add: get_open_code_def get_open_pre_def get_open_suf_def get_chunk_code_def)
  }
qed

text \<open>
  C6, witness: the file of 300 bytes \<open>a\<close>, uploaded from the local file \<open>up\<close> to the
  remote file \<open>r\<close> of a device without files, and downloaded from a device that has it
  into the local file \<open>down\<close>.
\<close>

theorem Put_Get_300_bytes_witness:
  "length (replicate 300 (CHR ''a'')) = 300 \<and> plain_path ''r'' \<and>
   fst (Put ''r'' ''up'' [''up'' \<mapsto> replicate 300 (CHR ''a'')]
          (at_prompt \<lparr>d_files = Map.empty, d_f = None, d_w = False, d_line = []\<rparr> [])) = None \<and>
   trace (snd (Put ''r'' ''up'' [''up'' \<mapsto> replicate 300 (CHR ''a'')]
          (at_prompt \<lparr>d_files = Map.empty, d_f = None, d_w = False, d_line = []\<rparr> []))) =
     exec_log
       (''from ubinascii import a2b_base64'' @ [LF] @ ''f=open('' @ [DQ] @ ''r'' @ [DQ] @
        '','' @ [SQ] @ ''wb'' @ [SQ] @ '')'' @ [LF] @
        ''w=lambda x:f.write(a2b_base64(x))'' @ [LF]) [] [] @
     exec_log (''w('' @ [DQ] @ EncodeToString (replicate 256 (CHR ''a'')) @ [DQ] @ '')'' @ [LF]) [] [] @
     exec_log (''w('' @ [DQ] @ EncodeToString (replicate 44 (CHR ''a'')) @ [DQ] @ '')'' @ [LF]) [] [] @
     exec_log ''f.close()'' [] [] \<and>
   ''down'' \<noteq> [] \<and>
   map_option fst
     (Get ''down'' ''r'' Map.empty
        (at_prompt \<lparr>d_files = [''r'' \<mapsto> replicate 300 (CHR ''a'')], d_f = None, d_w = False,
                    d_line = []\<rparr> [])) = Some None \<and>
   map_option (trace \<circ> snd \<circ> snd)
     (Get ''down'' ''r'' Map.empty
        (at_prompt \<lparr>d_files = [''r'' \<mapsto> replicate 300 (CHR ''a'')], d_f = None, d_w = False,
                    d_line = []\<rparr> [])) =
     Some (exec_log
             (''from ubinascii import b2a_base64'' @ [LF] @ ''f=open('' @ [DQ] @ ''r'' @ [DQ] @
              '','' @ [SQ] @ ''rb'' @ [SQ] @ '')'' @ [LF]) [] [] @
           exec_log
             (''d=str(b2a_base64(f.read(256)),'' @ [SQ] @ ''ascii'' @ [SQ] @ '')'' @ [LF] @
              ''print(d.strip(),end='' @ [SQ, SQ] @ '')'' @ [LF])
             (EncodeToString (replicate 256 (CHR ''a''))) [] @
           exec_log
             (''d=str(b2a_base64(f.read(256)),'' @ [SQ] @ ''ascii'' @ [SQ] @ '')'' @ [LF] @
              ''print(d.strip(),end='' @ [SQ, SQ] @ '')'' @ [LF])
             (EncodeToString (replicate 44 (CHR ''a''))) [] @
           exec_log
             (''d=str(b2a_base64(f.read(256)),'' @ [SQ] @ ''ascii'' @ [SQ] @ '')'' @ [LF] @
              ''print(d.strip(),end='' @ [SQ, SQ] @ '')'' @ [LF])
             [] [])"
proof -
  let ?c = "replicate 300 (CHR ''a'')"
  let ?d = "\<lparr>d_files = Map.empty, d_f = None, d_w = False, d_line = []\<rparr>"
  let ?e = "\<lparr>d_files = [''r'' \<mapsto> ?c], d_f = None, d_w = False, d_line = []\<rparr>"
  have pl: "plain_path ''r''" by (simp add: plain_path_def)
  have t: "take 256 ?c = replicate 256 (CHR ''a'')" "drop 256 ?c = replicate 44 (CHR ''a'')"
    by simp_all
  have hd: "length ?c = 300 \<and> plain_path ''r'' \<and> d_line ?d = []" using pl by simp
  have he: "length ?c = 300 \<and> plain_path ''r'' \<and> d_line ?e = []" using pl by simp
  have s: "[''up'' \<mapsto> ?c] ''up'' = Some ?c" by simp
  have g: "d_files ?e ''r'' = Some ?c \<and> ''down'' \<noteq> []" by simp
  note P = Put_Get_300_bytes[of ?c "''r''" ?d "[''up'' \<mapsto> ?c]" "''up''" "[]" "''down''",
      THEN mp, OF hd, THEN conjunct2, THEN conjunct2, THEN conjunct2, THEN conjunct1,
      THEN mp, OF s, unfolded t]
  note G = Put_Get_300_bytes[of ?c "''r''" ?e Map.empty "''up''" "[]" "''down''",
      THEN mp, OF he, THEN conjunct2, THEN conjunct2, THEN conjunct2, THEN conjunct2,
      THEN mp, OF g, unfolded t]
  have 1: "fst (Put ''r'' ''up'' [''up'' \<mapsto> ?c] (at_prompt ?d [])) = None"
    unfolding P by simp
  have 2: "trace (snd (Put ''r'' ''up'' [''up'' \<mapsto> ?c] (at_prompt ?d []))) =
     exec_log
       (''from ubinascii import a2b_base64'' @ [LF] @ ''f=open('' @ [DQ] @ ''r'' @ [DQ] @
        '','' @ [SQ] @ ''wb'' @ [SQ] @ '')'' @ [LF] @
        ''w=lambda x:f.write(a2b_base64(x))'' @ [LF]) [] [] @
     exec_log (''w('' @ [DQ] @ EncodeToString (replicate 256 (CHR ''a'')) @ [DQ] @ '')'' @ [LF]) [] [] @
     exec_log (''w('' @ [DQ] @ EncodeToString (replicate 44 (CHR ''a'')) @ [DQ] @ '')'' @ [LF]) [] [] @
     exec_log ''f.close()'' [] []"
    unfolding P by (simp add: at_prompt_def)
  have 3: "map_option fst (Get ''down'' ''r'' Map.empty (at_prompt ?e [])) = Some None"
    unfolding G by simp
  have 4: "map_option (trace \<circ> snd \<circ> snd) (Get ''down'' ''r'' Map.empty (at_prompt ?e [])) =
     Some (exec_log
             (''from ubinascii import b2a_base64'' @ [LF] @ ''f=open('' @ [DQ] @ ''r'' @ [DQ] @
              '','' @ [SQ] @ ''rb'' @ [SQ] @ '')'' @ [LF]) [] [] @
           exec_log
             (''d=str(b2a_base64(f.read(256)),'' @ [SQ] @ ''ascii'' @ [SQ] @ '')'' @ [LF] @
              ''print(d.strip(),end='' @ [SQ, SQ] @ '')'' @ [LF])
             (EncodeToString (replicate 256 (CHR ''a''))) [] @
           exec_log
             (''d=str(b2a_base64(f.read(256)),'' @ [SQ] @ ''ascii'' @ [SQ] @ '')'' @ [LF] @
              ''print(d.strip(),end='' @ [SQ, SQ] @ '')'' @ [LF])
             (EncodeToString (replicate 44 (CHR ''a''))) [] @
           exec_log
             (''d=str(b2a_base64(f.read(256)),'' @ [SQ] @ ''ascii'' @ [SQ] @ '')'' @ [LF] @
              ''print(d.strip(),end='' @ [SQ, SQ] @ '')'' @ [LF])
             [] [])"
    unfolding G by (simp add: at_prompt_def)
  from pl 1 2 3 4 show ?thesis by (simp only: simp_thms length_replicate) simp
qed

text \<open>
  C8. \<open>Get\<close> opens its destination so that a missing file is created empty and an
  existing one keeps its content: when the remote file cannot be opened, that is how
  \<open>Get\<close> leaves the destination. And when the destination exists with a content \<open>old\<close>
  longer than the remote file \<open>c\<close>, a successful \<open>Get\<close> leaves it holding \<open>c\<close> followed
  by the bytes of \<open>old\<close> from position \<open>length c\<close> on.
\<close>

theorem Get_keeps_old_tail:
  "dst \<noteq> [] \<and> plain_path src \<and> d_line d = [] \<longrightarrow>
     (d_files d src = None \<longrightarrow>
        (\<exists>p'. Get dst src lfs (at_prompt d t) =
           Some (Some (New remote_error),
                 (case lfs dst of None \<Rightarrow> lfs(dst \<mapsto> []) | Some old \<Rightarrow> lfs), p'))) \<and>
     (d_files d src = Some c \<and> lfs dst = Some old \<and> length c < length old \<longrightarrow>
        (\<exists>p'. Get dst src lfs (at_prompt d t) =
           Some (None, lfs(dst \<mapsto> c @ drop (length c) old), p')))"
proof (intro impI conjI)
  assume h: "dst \<noteq> [] \<and> plain_path src \<and> d_line d = []" and m: "d_files d src = None"
  then have n: "dst \<noteq> []" and s: "plain_path src" and l: "d_line d = []" by simp_all
  let ?lfs1 = "case lfs dst of None \<Rightarrow> lfs(dst \<mapsto> []) | Some old \<Rightarrow> lfs"
  from n have 0: "OpenFile_WRONLY_CREATE lfs dst = (Inr \<lparr>f_name = dst, f_off = 0\<rparr>, ?lfs1)"
    by (auto simp add: OpenFile_WRONLY_CREATE_def split: option.splits)
  have p: "wr (at_prompt d t) = []" "rx (at_prompt d t) = [Byte (CHR ''>'')]"
    "remote (at_prompt d t) = Some d"
    by (simp_all add: at_prompt_def)
  from l m s have r: "run (d\<lparr>d_line := []\<rparr>) (get_open_code src) = (d, [], remote_error)"
    by (simp add: device_line_id run_get_open_missing)
  have e: "EOT \<notin> set []" "EOT \<notin> set remote_error" by (simp_all add: remote_error_def)
  from Exec_remote(1)[OF p l no_EOT_get_open[OF s] r e]
  have "fst (Exec (get_open_code src) None (at_prompt d t)) = Inl (New remote_error)"
    by (simp add: remote_error_def)
  then show "\<exists>p'. Get dst src lfs (at_prompt d t) = Some (Some (New remote_error), ?lfs1, p')"
    unfolding Get_def 0
    by (cases "Exec (get_open_code src) None (at_prompt d t)") auto
next
  assume h: "dst \<noteq> [] \<and> plain_path src \<and> d_line d = []"
    and g: "d_files d src = Some c \<and> lfs dst = Some old \<and> length c < length old"
  then have n: "dst \<noteq> []" and s: "plain_path src" and l: "d_line d = []"
    and f: "d_files d src = Some c" and o: "lfs dst = Some old" by simp_all
  from Get_remote[where dst = dst and src = src and d = d and c = c and lfs = lfs and t = t,
      OF n s l f] o
  show "\<exists>p'. Get dst src lfs (at_prompt d t) =
           Some (None, lfs(dst \<mapsto> c @ drop (length c) old), p')"
    by (simp add: overwrite_def)
qed

text \<open>
  C8, witness: the remote file \<open>r\<close> holds \<open>hi\<close> and the local file \<open>b\<close> holds \<open>WXYZ\<close>;
  and a remote file \<open>q\<close> that does not exist, downloaded into a new and into an
  existing local file.
\<close>

theorem Get_keeps_old_tail_witness:
  "''b'' \<noteq> [] \<and> plain_path ''r'' \<and> plain_path ''q'' \<and> length ''hi'' < length ''WXYZ'' \<and>
   (\<exists>p'. Get ''b'' ''r'' [''b'' \<mapsto> ''WXYZ'']
            (at_prompt \<lparr>d_files = [''r'' \<mapsto> ''hi''], d_f = None, d_w = False, d_line = []\<rparr> []) =
          Some (None, [''b'' \<mapsto> ''hiYZ''], p')) \<and>
   (\<exists>p'. Get ''n'' ''q'' [''b'' \<mapsto> ''WXYZ'']
            (at_prompt \<lparr>d_files = [''r'' \<mapsto> ''hi''], d_f = None, d_w = False, d_line = []\<rparr> []) =
          Some (Some (New remote_error), [''b'' \<mapsto> ''WXYZ'', ''n'' \<mapsto> []], p')) \<and>
   (\<exists>p'. Get ''b'' ''q'' [''b'' \<mapsto> ''WXYZ'']
            (at_prompt \<lparr>d_files = [''r'' \<mapsto> ''hi''], d_f = None, d_w = False, d_line = []\<rparr> []) =
          Some (Some (New remote_error), [''b'' \<mapsto> ''WXYZ''], p'))"
proof -
  let ?d = "\<lparr>d_files = [''r'' \<mapsto> ''hi''], d_f = None, d_w = False, d_line = []\<rparr>"
  let ?lfs = "[''b'' \<mapsto> ''WXYZ'']"
  have pr: "plain_path ''r''" and pq: "plain_path ''q''" by (simp_all add: plain_path_def)
  have h1: "''b'' \<noteq> [] \<and> plain_path ''r'' \<and> d_line ?d = []" using pr by simp
  have h2: "''n'' \<noteq> [] \<and> plain_path ''q'' \<and> d_line ?d = []" using pq by simp
  have h3: "''b'' \<noteq> [] \<and> plain_path ''q'' \<and> d_line ?d = []" using pq by simp
  have g1: "d_files ?d ''r'' = Some ''hi'' \<and> ?lfs ''b'' = Some ''WXYZ'' \<and>
            length ''hi'' < length ''WXYZ''" by simp
  have g2: "d_files ?d ''q'' = None" by simp
  from Get_keeps_old_tail[of "''b''" "''r''" ?d ?lfs "[]" "''hi''" "''WXYZ''",
      THEN mp, OF h1, THEN conjunct2, THEN mp, OF g1]
  have 1: "\<exists>p'. Get ''b'' ''r'' ?lfs (at_prompt ?d []) = Some (None, [''b'' \<mapsto> ''hiYZ''], p')"
    by simp
  from Get_keeps_old_tail[of "''n''" "''q''" ?d ?lfs "[]" "''hi''" "''WXYZ''",
      THEN mp, OF h2, THEN conjunct1, THEN mp, OF g2]
  have 2: "\<exists>p'. Get ''n'' ''q'' ?lfs (at_prompt ?d []) =
             Some (Some (New remote_error), [''b'' \<mapsto> ''WXYZ'', ''n'' \<mapsto> []], p')"
    by simp
  from Get_keeps_old_tail[of "''b''" "''q''" ?d ?lfs "[]" "''hi''" "''WXYZ''",
      THEN mp, OF h3, THEN conjunct1, THEN mp, OF g2]
  have 3: "\<exists>p'. Get ''b'' ''q'' ?lfs (at_prompt ?d []) =
             Some (Some (New remote_error), [''b'' \<mapsto> ''WXYZ''], p')"
    by simp
  from pr pq 1 2 3 show ?thesis by (simp only: simp_thms) simp
qed


end
